theory Spec2Isabelle
  imports Main "HOL-Library.Multiset"
begin

section \<open>Exceptions\<close>

text \<open>
  Every exception the modelled Python code can raise is a value. \<open>DependencyError\<close>
  carries its message; the others are the built-in exception classes the code lets
  escape, the two \<open>sqlite3\<close> errors, and \<open>BuilderException\<close> for whatever a user's
  \<open>build()\<close> raises.
\<close>

datatype error =
    DependencyError string
  | KeyError
  | TypeError
  | ValueError
  | FileNotFoundError
  | OperationalError
  | IntegrityError
  | BuilderException

section \<open>Python containers\<close>

text \<open>
  A \<open>dict\<close> is an association list in insertion order (the order \<open>items()\<close> yields).
  \<open>dict_get\<close> is the read of a \<open>defaultdict\<close> whose default is the empty collection;
  \<open>dict_set\<close> overwrites in place or appends a new key.
\<close>

type_synonym ('k, 'v) dict = "('k \<times> 'v) list"

definition dict_get :: "('k, 'v list) dict \<Rightarrow> 'k \<Rightarrow> 'v list" where
  "dict_get d k = (case map_of d k of None \<Rightarrow> [] | Some v \<Rightarrow> v)"

fun dict_set :: "'k \<Rightarrow> 'v \<Rightarrow> ('k, 'v) dict \<Rightarrow> ('k, 'v) dict" where
  "dict_set k v [] = [(k, v)]"
| "dict_set k v (p # ps) = (if fst p = k then (k, v) # ps else p # dict_set k v ps)"

text \<open>
  A Python \<open>set\<close> is kept as a duplicate-free list. Python does not fix the order in
  which a set is iterated; every function that iterates a set takes the iteration order
  as a parameter \<open>it\<close>, which maps the stored list to the list iterated. The theorems
  assume of \<open>it\<close> only that it permutes a duplicate-free list (\<open>set_iter_ok\<close>).
\<close>

definition pyset :: "'a list \<Rightarrow> 'a list" where
  "pyset xs = remdups xs"

definition set_add :: "'a \<Rightarrow> 'a list \<Rightarrow> 'a list" where
  "set_add x s = (if x \<in> set s then s else s @ [x])"

definition set_iter_ok :: "('a list \<Rightarrow> 'a list) \<Rightarrow> bool" where
  "set_iter_ok it = (\<forall>xs. distinct xs \<longrightarrow> distinct (it xs) \<and> set (it xs) = set xs)"

section \<open>The node model\<close>

text \<open>
  Nodes and builders are objects of the Python heap; \<open>'n\<close> and \<open>'b\<close> are the types of
  their handles. A heap holds finitely many objects, so \<open>'n\<close> is a finite type. The
  fields the resolver reads are functions of the handle: \<open>Node.depends\<close>,
  \<open>Node.builder\<close>, \<open>Builder.depends\<close>, \<open>Builder.builds\<close>; \<open>is_entry n\<close> is
  \<open>isinstance(n, Entry)\<close> and \<open>node_str n\<close> is \<open>str(n)\<close>.
\<close>

record ('n, 'b) world =
  depends :: "'n \<Rightarrow> 'n list"
  builder :: "'n \<Rightarrow> 'b option"
  b_depends :: "'b \<Rightarrow> 'n list"
  builds :: "'b \<Rightarrow> 'n list"
  is_entry :: "'n \<Rightarrow> bool"
  node_str :: "'n \<Rightarrow> string"

section \<open>Graph traversal: \<open>_traverse_node_graph\<close>\<close>

text \<open>
  The set \<open>dependencies\<close> built for the node being visited: its own \<open>depends\<close>, and
  when it has a builder, the builder's \<open>depends\<close> and the \<open>depends\<close> of every node in
  the builder's \<open>builds\<close>. The result is the list the \<open>for dep in dependencies\<close> loop
  iterates.
\<close>

definition dependencies ::
  "('n list \<Rightarrow> 'n list) \<Rightarrow> ('n, 'b) world \<Rightarrow> 'n \<Rightarrow> 'n list" where
  "dependencies it w visiting =
     it (pyset (depends w visiting @
       (case builder w visiting of
          None \<Rightarrow> []
        | Some b \<Rightarrow> b_depends w b @ concat (map (depends w) (builds w b)))))"

text \<open>
  The loop \<open>for dep in dependencies\<close>: append \<open>dep\<close> to \<open>edges[visiting]\<close> and push it
  on \<open>to_visit\<close> unless it is in \<open>seen\<close>. The Python list \<open>to_visit\<close> is used as a stack
  (\<open>append\<close>, \<open>pop()\<close>); the model keeps it with the top first.
\<close>

fun visit_deps ::
  "'n \<Rightarrow> 'n set \<Rightarrow> 'n list \<Rightarrow> ('n, 'n list) dict \<times> 'n list \<Rightarrow> ('n, 'n list) dict \<times> 'n list" where
  "visit_deps visiting seen [] (edges, to_visit) = (edges, to_visit)"
| "visit_deps visiting seen (dep # deps) (edges, to_visit) =
     visit_deps visiting seen deps
       (dict_set visiting (dict_get edges visiting @ [dep]) edges,
        if dep \<in> seen then to_visit else dep # to_visit)"

lemma visit_deps_eq:
  "visit_deps v seen deps (edges, to_visit) =
     ((if deps = [] then edges else dict_set v (dict_get edges v @ deps) edges),
      rev (filter (\<lambda>d. d \<notin> seen) deps) @ to_visit)"
proof (induction deps arbitrary: edges to_visit)
  case Nil
  show ?case by simp
next
  case (Cons d ds)
  have get: "dict_get (dict_set v x edges) v = x" for x
    by (induction edges) (auto simp: dict_get_def)
  have set2: "dict_set v y (dict_set v x edges) = dict_set v y edges" for x y
    by (induction edges) auto
  show ?case
    by (simp add: Cons.IH get set2)
qed

function traverse_loop ::
  "('n::finite list \<Rightarrow> 'n list) \<Rightarrow> ('n, 'b) world \<Rightarrow> 'n list \<Rightarrow> 'n set \<Rightarrow> 'n list \<Rightarrow>
     ('n, 'n list) dict \<Rightarrow> 'n list \<times> ('n, 'n list) dict" where
  "traverse_loop it w [] seen reachable_entries edges = (reachable_entries, edges)"
| "traverse_loop it w (visiting # to_visit) seen reachable_entries edges =
     (case visit_deps visiting (insert visiting seen) (dependencies it w visiting)
             (edges, to_visit) of
        (edges', to_visit') \<Rightarrow>
          traverse_loop it w to_visit' (insert visiting seen)
            (reachable_entries @ [visiting]) edges')"
  by pat_completeness auto
termination
proof (relation "measures [\<lambda>(it, w, to_visit, seen, r, e). card (- seen),
    \<lambda>(it, w, to_visit, seen, r, e). length (filter (\<lambda>x. x \<in> seen) to_visit)]", goal_cases)
  case 1
  show ?case by simp
next
  case (2 it w visiting to_visit seen reachable_entries edges edges' to_visit')
  then have tv: "to_visit' =
      rev (filter (\<lambda>d. d \<notin> insert visiting seen) (dependencies it w visiting)) @ to_visit"
    by (simp add: visit_deps_eq)
  show ?case
  proof (cases "visiting \<in> seen")
    case True
    then have "insert visiting seen = seen" by auto
    with True tv show ?thesis by simp
  next
    case False
    then have "- insert visiting seen \<subset> - seen" by auto
    then have "card (- insert visiting seen) < card (- seen)"
      by (rule psubset_card_mono [OF finite])
    then show ?thesis by simp
  qed
qed

definition traverse_node_graph ::
  "('n::finite list \<Rightarrow> 'n list) \<Rightarrow> ('n, 'b) world \<Rightarrow> 'n list \<Rightarrow> 'n list \<times> ('n, 'n list) dict" where
  "traverse_node_graph it w targets = traverse_loop it w (rev targets) {} [] []"

section \<open>Topological sort: \<open>_sort_dag\<close>\<close>

text \<open>
  \<open>reverse_edges\<close> is a \<open>defaultdict(set)\<close> that is only ever indexed, never
  enumerated, so it is a function from the key to the stored set. The two loops
  that fill it: for every item \<open>(e, deps)\<close> of \<open>edges\<close> and every \<open>dep\<close> of the set
  \<open>deps\<close>, \<open>reverse_edges[dep].add(e)\<close>.
\<close>

fun add_reverse :: "'n \<Rightarrow> 'n list \<Rightarrow> ('n \<Rightarrow> 'n list) \<Rightarrow> ('n \<Rightarrow> 'n list)" where
  "add_reverse e [] reverse_edges = reverse_edges"
| "add_reverse e (dep # deps) reverse_edges =
     add_reverse e deps (reverse_edges(dep := set_add e (reverse_edges dep)))"

fun build_reverse ::
  "('n list \<Rightarrow> 'n list) \<Rightarrow> ('n, 'n list) dict \<Rightarrow> ('n \<Rightarrow> 'n list) \<Rightarrow> ('n \<Rightarrow> 'n list)" where
  "build_reverse it [] reverse_edges = reverse_edges"
| "build_reverse it ((e, deps) # items) reverse_edges =
     build_reverse it items (add_reverse e (it deps) reverse_edges)"

text \<open>
  The body of \<open>for m in list(reverse_edges[node])\<close>, run over the snapshot list.
  \<open>set.remove\<close> raises \<open>KeyError\<close> when the element is absent; the model has that
  branch. The stack \<open>leaf_nodes\<close> is kept with its top first.
\<close>

fun remove_incoming ::
  "'n \<Rightarrow> 'n list \<Rightarrow> ('n, 'n list) dict \<times> ('n \<Rightarrow> 'n list) \<times> 'n list \<Rightarrow>
     error + (('n, 'n list) dict \<times> ('n \<Rightarrow> 'n list) \<times> 'n list)" where
  "remove_incoming node [] st = Inr st"
| "remove_incoming node (m # ms) (edges, reverse_edges, leaf_nodes) =
     (if m \<notin> set (reverse_edges node) then Inl KeyError
      else if node \<notin> set (dict_get edges m) then Inl KeyError
      else
        let reverse_edges' = reverse_edges(node := remove1 m (reverse_edges node));
            edges' = dict_set m (remove1 node (dict_get edges m)) edges
        in remove_incoming node ms
             (edges', reverse_edges',
              if dict_get edges' m = [] then m # leaf_nodes else leaf_nodes))"

definition edge_count :: "('n, 'n list) dict \<Rightarrow> nat" where
  "edge_count edges = sum_list (map (\<lambda>p. length (snd p)) edges)"

lemma dict_get_Nil [simp]: "dict_get [] k = []"
  by (simp add: dict_get_def)

lemma dict_get_Cons [simp]:
  "dict_get (p # ps) k = (if fst p = k then snd p else dict_get ps k)"
  by (cases p) (simp add: dict_get_def)

lemma dict_get_dict_set [simp]:
  "dict_get (dict_set k v d) k' = (if k' = k then v else dict_get d k')"
  by (induction d) auto

lemma map_fst_dict_set:
  "map fst (dict_set k v d) = (if k \<in> fst ` set d then map fst d else map fst d @ [k])"
  by (induction d) auto

lemma edge_count_remove:
  "x \<in> set (dict_get d k) \<Longrightarrow>
     Suc (edge_count (dict_set k (remove1 x (dict_get d k)) d)) = edge_count d"
proof (induction d)
  case Nil
  then show ?case by simp
next
  case (Cons p ps)
  show ?case
  proof (cases "fst p = k")
    case True
    with Cons.prems have "x \<in> set (snd p)" by simp
    then have "Suc (length (remove1 x (snd p))) = length (snd p)"
      by (simp add: length_remove1) (cases "snd p"; simp)
    with True show ?thesis by (simp add: edge_count_def)
  next
    case False
    with Cons show ?thesis by (simp add: edge_count_def)
  qed
qed

lemma remove_incoming_measure:
  "remove_incoming node ms (edges, reverse_edges, leaf_nodes) = Inr (edges', reverse_edges', leaf_nodes')
     \<Longrightarrow> edge_count edges' + length ms = edge_count edges \<and>
         length leaf_nodes' \<le> length leaf_nodes + length ms"
proof (induction ms arbitrary: edges reverse_edges leaf_nodes)
  case Nil
  then show ?case by simp
next
  case (Cons m ms)
  from Cons.prems have inr: "m \<in> set (reverse_edges node)" and ine: "node \<in> set (dict_get edges m)"
    by (auto split: if_splits)
  let ?e = "dict_set m (remove1 node (dict_get edges m)) edges"
  let ?r = "reverse_edges(node := remove1 m (reverse_edges node))"
  let ?l = "if dict_get ?e m = [] then m # leaf_nodes else leaf_nodes"
  from Cons.prems inr ine
  have "remove_incoming node ms (?e, ?r, ?l) = Inr (edges', reverse_edges', leaf_nodes')"
    by (simp add: Let_def)
  from Cons.IH [OF this] edge_count_remove [OF ine]
  show ?case by (auto split: if_splits)
qed

function sort_loop ::
  "('n list \<Rightarrow> 'n list) \<Rightarrow> ('n, 'n list) dict \<Rightarrow> ('n \<Rightarrow> 'n list) \<Rightarrow> 'n list \<Rightarrow> 'n list \<Rightarrow>
     error + (('n, 'n list) dict \<times> 'n list)" where
  "sort_loop it edges reverse_edges sorted_nodes [] = Inr (edges, sorted_nodes)"
| "sort_loop it edges reverse_edges sorted_nodes (node # leaf_nodes) =
     (case remove_incoming node (it (reverse_edges node)) (edges, reverse_edges, leaf_nodes) of
        Inl e \<Rightarrow> Inl e
      | Inr (edges', reverse_edges', leaf_nodes') \<Rightarrow>
          sort_loop it edges' reverse_edges' (sorted_nodes @ [node]) leaf_nodes')"
  by pat_completeness auto
termination
proof (relation "measures [\<lambda>(it, edges, r, s, leaf_nodes). edge_count edges,
    \<lambda>(it, edges, r, s, leaf_nodes). length leaf_nodes]", goal_cases)
  case 1
  show ?case by simp
next
  case (2 it edges reverse_edges sorted_nodes node leaf_nodes st edges' rl reverse_edges' leaf_nodes')
  then have "remove_incoming node (it (reverse_edges node)) (edges, reverse_edges, leaf_nodes)
      = Inr (edges', reverse_edges', leaf_nodes')"
    by simp
  from remove_incoming_measure [OF this] show ?case
    by (cases "it (reverse_edges node)") auto
qed

text \<open>
  The message of the cycle error: the header, then one line \<open>f"{n} \<rightarrow> {dep}"\<close> for every
  item of \<open>edges\<close> with a non-empty set and every \<open>dep\<close> of that set, joined by newlines.
  The arrow is U+2192, three bytes in UTF-8.
\<close>

definition arrow :: string where
  "arrow = [CHR 0xE2, CHR 0x86, CHR 0x92]"

definition newline :: string where
  "newline = [CHR 0x0A]"

definition edge_line :: "('n \<Rightarrow> string) \<Rightarrow> 'n \<Rightarrow> 'n \<Rightarrow> string" where
  "edge_line str n dep = str n @ '' '' @ arrow @ '' '' @ str dep"

definition cycle_lines ::
  "('n list \<Rightarrow> 'n list) \<Rightarrow> ('n \<Rightarrow> string) \<Rightarrow> ('n, 'n list) dict \<Rightarrow> string list" where
  "cycle_lines it str edges =
     concat (map (\<lambda>(n, deps). map (edge_line str n) (it deps))
       (filter (\<lambda>(n, deps). deps \<noteq> []) edges))"

fun join :: "string \<Rightarrow> string list \<Rightarrow> string" where
  "join sep [] = []"
| "join sep [l] = l"
| "join sep (l # ls) = l @ sep @ join sep ls"

definition cycle_message ::
  "('n list \<Rightarrow> 'n list) \<Rightarrow> ('n \<Rightarrow> string) \<Rightarrow> ('n, 'n list) dict \<Rightarrow> string" where
  "cycle_message it str edges =
     ''Dependency graph has cycles:'' @ newline @ join newline (cycle_lines it str edges)"

definition sort_dag ::
  "('n list \<Rightarrow> 'n list) \<Rightarrow> ('n \<Rightarrow> string) \<Rightarrow> 'n list \<Rightarrow> ('n, 'n list) dict \<Rightarrow> error + 'n list" where
  "sort_dag it str nodes edges_orig =
     (let edges = map (\<lambda>(e, deps). (e, pyset deps)) edges_orig;
          reverse_edges = build_reverse it edges (\<lambda>k. []);
          leaf_nodes = filter (\<lambda>n. dict_get edges n = []) nodes
      in case sort_loop it edges reverse_edges [] (rev leaf_nodes) of
           Inl e \<Rightarrow> Inl e
         | Inr (edges', sorted_nodes) \<Rightarrow>
             if list_ex (\<lambda>(n, deps). deps \<noteq> []) edges'
             then Inl (DependencyError (cycle_message it str edges'))
             else Inr sorted_nodes)"

section \<open>The prepared build and its dirty propagation: \<open>PreparedBuild.get_to_build\<close>\<close>

text \<open>
  The dataclass \<open>PreparedBuild\<close>. Its sets are kept as duplicate-free lists; \<open>pb_edges\<close>
  is the \<open>defaultdict\<close> the traversal returned, so \<open>self.edges[node]\<close> is \<open>dict_get\<close>.
\<close>

record 'n prepared_build =
  pb_ordered_nodes :: "'n list"
  pb_buildable_entries :: "'n list"
  pb_edges :: "('n, 'n list) dict"
  pb_out_of_date :: "'n list"
  pb_changed :: "'n list"
  pb_entry_dependencies :: "('n, 'n list) dict"
  pb_targets :: "'n list"

text \<open>
  The first loop of \<open>get_to_build\<close>, over \<open>ordered_nodes\<close>: a node any of whose
  dependencies is in \<open>to_build\<close> is added. The set \<open>to_build\<close> is only tested for
  membership, added to and returned, so it is a HOL set.
\<close>

fun downward_pass :: "('n, 'n list) dict \<Rightarrow> 'n list \<Rightarrow> 'n set \<Rightarrow> 'n set" where
  "downward_pass edges [] to_build = to_build"
| "downward_pass edges (node # nodes) to_build =
     downward_pass edges nodes
       (if list_ex (\<lambda>d. d \<in> to_build) (dict_get edges node)
        then insert node to_build else to_build)"

text \<open>
  The second loop, over \<open>reversed(ordered_nodes)\<close>: a node in \<open>to_build\<close> adds its
  dependencies that are not an \<open>Entry\<close>.
\<close>

fun upward_pass :: "('n \<Rightarrow> bool) \<Rightarrow> ('n, 'n list) dict \<Rightarrow> 'n list \<Rightarrow> 'n set \<Rightarrow> 'n set" where
  "upward_pass is_ent edges [] to_build = to_build"
| "upward_pass is_ent edges (node # nodes) to_build =
     upward_pass is_ent edges nodes
       (if node \<in> to_build
        then to_build \<union> set (filter (\<lambda>d. \<not> is_ent d) (dict_get edges node))
        else to_build)"

definition get_to_build :: "('n, 'b) world \<Rightarrow> 'n prepared_build \<Rightarrow> 'n set" where
  "get_to_build w pb =
     upward_pass (is_entry w) (pb_edges pb) (rev (pb_ordered_nodes pb))
       (downward_pass (pb_edges pb) (pb_ordered_nodes pb) (set (pb_out_of_date pb)))"

text \<open>
  A node list is topologically ordered for an edge dictionary when every dependency of
  a node stands somewhere before each occurrence of that node.
\<close>

fun deps_before :: "('n, 'n list) dict \<Rightarrow> 'n list \<Rightarrow> 'n list \<Rightarrow> bool" where
  "deps_before edges pre [] = True"
| "deps_before edges pre (n # ns) =
     (list_all (\<lambda>d. d \<in> set pre) (dict_get edges n) \<and> deps_before edges (pre @ [n]) ns)"

definition topo_ordered :: "('n, 'n list) dict \<Rightarrow> 'n list \<Rightarrow> bool" where
  "topo_ordered edges ns = deps_before edges [] ns"

section \<open>Builder registration: \<open>Execution._resolve_builder\<close> and \<open>Builder.side_effect\<close>\<close>



text \<open>
  What the user's \<open>get_targets()\<close> returns: one \<open>Entry\<close>, or an iterable whose items
  are entries or, against the annotation, something else.
\<close>

datatype 'n item = EntryItem 'n | OtherItem

datatype 'n targets = SingleEntry 'n | Iterable "'n item list"














section \<open>The metadata store\<close>

text \<open>
  The table \<open>file_metadata (path text PRIMARY KEY, metadata text)\<close> is a map from the path
  text to the metadata text. The connection is opened with \<open>isolation_level=None\<close>, so
  every statement is committed as it is executed.

  The two \<open>_set_metadata\<close> methods differ only in the word after \<open>INSERT OR\<close>. SQLite's
  grammar admits five conflict resolutions there; any other word is a syntax error,
  which \<open>execute\<close> raises as \<open>sqlite3.OperationalError\<close> before touching the table. When
  the new row's primary key is already present, \<open>REPLACE\<close> deletes the old row and
  inserts the new one, \<open>IGNORE\<close> keeps the old row, and the other three raise
  \<open>sqlite3.IntegrityError\<close>.
\<close>

type_synonym metadata_db = "string \<Rightarrow> string option"

datatype conflict_resolution = Rollback | Abort | Fail | Ignore | Replace

definition conflict_resolution_of :: "string \<Rightarrow> conflict_resolution option" where
  "conflict_resolution_of word =
     (if word = ''ROLLBACK'' then Some Rollback
      else if word = ''ABORT'' then Some Abort
      else if word = ''FAIL'' then Some Fail
      else if word = ''IGNORE'' then Some Ignore
      else if word = ''REPLACE'' then Some Replace
      else None)"

definition insert_or :: "string \<Rightarrow> string \<Rightarrow> string \<Rightarrow> metadata_db \<Rightarrow> error + metadata_db" where
  "insert_or word path metadata db =
     (case conflict_resolution_of word of
        None \<Rightarrow> Inl OperationalError
      | Some Replace \<Rightarrow> Inr (db(path := Some metadata))
      | Some Ignore \<Rightarrow> Inr (if db path = None then db(path := Some metadata) else db)
      | Some other \<Rightarrow>
          (if db path = None then Inr (db(path := Some metadata)) else Inl IntegrityError))"

text \<open>
  A signature is the dictionary from the path text of a dependency to that dependency's
  file metadata; \<open>'m\<close> is the type of the file metadata (the dictionary \<open>get_metadata\<close>
  returns). Two dictionaries are equal in Python when they map the same keys to the
  same values.
\<close>

type_synonym 'm signature = "(string, 'm) dict"

definition dict_differs :: "('k, 'v) dict \<Rightarrow> ('k, 'v) dict \<Rightarrow> bool" where
  "dict_differs a b = (map_of a \<noteq> map_of b)"

text \<open>
  What the code needs from outside the dependency graph: the path text of an entry and
  the text of a builder, the file system (\<open>'fs\<close>) with the calls the entries and builders
  make on it, and \<open>json.dumps\<close> and \<open>json.loads\<close> on signatures.
\<close>

record ('n, 'b, 'fs, 'm) runtime =
  node_path :: "'n \<Rightarrow> string"
  builder_str :: "'b \<Rightarrow> string"
  path_exists :: "'fs \<Rightarrow> 'n \<Rightarrow> bool"
  stat_metadata :: "'fs \<Rightarrow> 'n \<Rightarrow> 'm"
  remove_entry :: "'n \<Rightarrow> 'fs \<Rightarrow> 'fs"
  prepare_entry :: "'n \<Rightarrow> 'fs \<Rightarrow> 'fs"
  run_build :: "'b \<Rightarrow> 'fs \<Rightarrow> error + 'fs"
  json_dumps :: "'m signature \<Rightarrow> string"
  json_loads :: "string \<Rightarrow> 'm signature"

text \<open>\<open>Execution._get_metadata\<close> and \<open>Execution._set_metadata\<close> of \<open>execution.py\<close>.\<close>

definition execution_get_metadata ::
  "('n, 'b, 'fs, 'm) runtime \<Rightarrow> string \<Rightarrow> metadata_db \<Rightarrow> 'm signature option" where
  "execution_get_metadata rt path db =
     (case db path of None \<Rightarrow> None | Some row \<Rightarrow> Some (json_loads rt row))"

definition execution_set_metadata ::
  "('n, 'b, 'fs, 'm) runtime \<Rightarrow> string \<Rightarrow> 'm signature \<Rightarrow> metadata_db \<Rightarrow> error + metadata_db" where
  "execution_set_metadata rt path metadata db =
     insert_or ''REPLACE'' path (json_dumps rt metadata) db"

text \<open>
  The same two methods of the \<open>Execution\<close> class of \<open>minicons/__init__.py\<close>: the read
  returns the empty dictionary when there is no row, the write says \<open>INSERT OR UPDATE\<close>.
\<close>

definition init_get_metadata ::
  "('n, 'b, 'fs, 'm) runtime \<Rightarrow> string \<Rightarrow> metadata_db \<Rightarrow> 'm signature" where
  "init_get_metadata rt path db =
     (case db path of None \<Rightarrow> [] | Some row \<Rightarrow> json_loads rt row)"

definition init_set_metadata ::
  "('n, 'b, 'fs, 'm) runtime \<Rightarrow> string \<Rightarrow> 'm signature \<Rightarrow> metadata_db \<Rightarrow> error + metadata_db" where
  "init_set_metadata rt path metadata db =
     insert_or ''UPDATE'' path (json_dumps rt metadata) db"

text \<open>
  \<open>File.get_metadata\<close> and \<open>Dir.get_metadata\<close> start with \<open>os.stat(self.path)\<close>, which
  raises \<open>FileNotFoundError\<close> exactly when \<open>self.path.exists()\<close> is false; otherwise they
  return the dictionary built from the stat result.
\<close>

definition file_get_metadata :: "('n, 'b, 'fs, 'm) runtime \<Rightarrow> 'fs \<Rightarrow> 'n \<Rightarrow> error + 'm" where
  "file_get_metadata rt fs entry =
     (if path_exists rt fs entry then Inr (stat_metadata rt fs entry) else Inl FileNotFoundError)"

section \<open>The execution: \<open>_args_to_nodes\<close>, \<open>prepare_build\<close>, \<open>build_targets\<close>\<close>

text \<open>
  The fields of \<open>Execution\<close> the build reads. \<open>ex_root_joinpath s\<close> is
  \<open>self.root.joinpath(s)\<close>; paths are their texts.
\<close>

record 'n execution =
  ex_aliases :: "string \<Rightarrow> 'n list option"
  ex_entries :: "string \<Rightarrow> 'n option"
  ex_root_joinpath :: "string \<Rightarrow> string"

text \<open>
  An argument of type \<open>Args\<close>: a \<open>Path\<close>, a \<open>Node\<close>, a string, an object with a \<open>target\<close>
  attribute, an iterable of arguments, or anything else. The generator
  \<open>_args_to_nodes\<close> is consumed by \<open>list(...)\<close>, so its model returns the list, or the
  first exception. An alias maps to a list of nodes, which the recursive call yields
  one by one.
\<close>

datatype 'n args =
    ArgPath string
  | ArgNode 'n
  | ArgStr string
  | ArgTarget "'n args"
  | ArgIterable "'n args list"
  | ArgOther

fun args_to_nodes :: "'n execution \<Rightarrow> 'n args \<Rightarrow> error + 'n list"
  and args_list_to_nodes :: "'n execution \<Rightarrow> 'n args list \<Rightarrow> error + 'n list" where
  "args_to_nodes ex (ArgPath p) =
     (case ex_entries ex p of None \<Rightarrow> Inl KeyError | Some e \<Rightarrow> Inr [e])"
| "args_to_nodes ex (ArgNode n) = Inr [n]"
| "args_to_nodes ex (ArgStr s) =
     (case ex_aliases ex s of
        Some nodes \<Rightarrow> Inr nodes
      | None \<Rightarrow>
          (case ex_entries ex (ex_root_joinpath ex s) of
             None \<Rightarrow> Inl KeyError
           | Some e \<Rightarrow> Inr [e]))"
| "args_to_nodes ex (ArgTarget a) = args_to_nodes ex a"
| "args_to_nodes ex (ArgIterable items) = args_list_to_nodes ex items"
| "args_to_nodes ex ArgOther = Inl TypeError"
| "args_list_to_nodes ex [] = Inr []"
| "args_list_to_nodes ex (a # items) =
     (case args_to_nodes ex a of
        Inl e \<Rightarrow> Inl e
      | Inr nodes \<Rightarrow>
          (case args_list_to_nodes ex items of
             Inl e \<Rightarrow> Inl e
           | Inr others \<Rightarrow> Inr (nodes @ others)))"

text \<open>
  The first two statements of \<open>build_targets\<close> in \<open>minicons/__init__.py\<close>, for a string
  target that is no alias: \<open>_args_to_paths\<close> yields \<open>Path.cwd().joinpath(arg)\<close>, and the
  lookup in \<open>self.entries\<close> turns a \<open>KeyError\<close> into a \<open>DependencyError\<close>.
\<close>

definition init_target_entry :: "'n execution \<Rightarrow> string \<Rightarrow> error + 'n list" where
  "init_target_entry ex arg =
     (case ex_entries ex (ex_root_joinpath ex arg) of
        None \<Rightarrow> Inl (DependencyError (''Target not found: '' @ ex_root_joinpath ex arg))
      | Some e \<Rightarrow> Inr [e])"

text \<open>
  The state a build reads and writes: the file system, the metadata table, and, for the
  theorems, the builders \<open>_call_builder\<close> was called with, in call order.
\<close>

record ('b, 'fs) run_state =
  rs_fs :: 'fs
  rs_db :: metadata_db
  rs_invoked :: "'b list"

subsection \<open>\<open>prepare_build\<close>\<close>

text \<open>
  The loop that collects all ancestor entries of a node keeps no set of visited nodes:
  on a graph with a cycle it never ends, so it is a partial function. The stack
  \<open>to_visit\<close> has its top first. Reading \<open>edges[v]\<close> inserts the key \<open>v\<close> into the
  \<open>defaultdict\<close> when it is missing; that changes the keys \<open>items()\<close> yields and no
  value \<open>dict_get\<close> reads, and nothing modelled enumerates \<open>edges\<close> after this loop.
\<close>

partial_function (option) ancestors_loop ::
  "('n \<Rightarrow> bool) \<Rightarrow> ('n, 'n list) dict \<Rightarrow> 'n list \<Rightarrow> 'n list \<Rightarrow> 'n list option" where
  "ancestors_loop is_ent edges to_visit found =
     (case to_visit of
        [] \<Rightarrow> Some found
      | v # rest \<Rightarrow>
          ancestors_loop is_ent edges (rev (dict_get edges v) @ rest)
            (if is_ent v then set_add v found else found))"

fun all_dependencies_loop ::
  "('n \<Rightarrow> bool) \<Rightarrow> ('n, 'n list) dict \<Rightarrow> 'n list \<Rightarrow> ('n, 'n list) dict \<Rightarrow>
     ('n, 'n list) dict option" where
  "all_dependencies_loop is_ent edges [] all_dependencies = Some all_dependencies"
| "all_dependencies_loop is_ent edges (node # nodes) all_dependencies =
     (case ancestors_loop is_ent edges (rev (dict_get edges node)) [] of
        None \<Rightarrow> None
      | Some found \<Rightarrow>
          all_dependencies_loop is_ent edges nodes (dict_set node found all_dependencies))"

definition missing_message :: "string \<Rightarrow> string" where
  "missing_message entry =
     ''Path '' @ entry @ '' required but not present on filesystem and no builder defined''"

text \<open>The loop \<open>for entry in entry_nodes\<close> that fills \<open>metadata\<close>.\<close>

fun gather_metadata ::
  "('n, 'b) world \<Rightarrow> ('n, 'b, 'fs, 'm) runtime \<Rightarrow> 'fs \<Rightarrow> 'n list \<Rightarrow> ('n, 'm) dict \<Rightarrow>
     error + ('n, 'm) dict" where
  "gather_metadata w rt fs [] metadata = Inr metadata"
| "gather_metadata w rt fs (entry # entries) metadata =
     (if builder w entry = None \<and> \<not> path_exists rt fs entry
      then Inl (DependencyError (missing_message (node_str w entry)))
      else (case file_get_metadata rt fs entry of
              Inl e \<Rightarrow> Inl e
            | Inr m \<Rightarrow> gather_metadata w rt fs entries (dict_set entry m metadata)))"

text \<open>\<open>_metadata_signature\<close>: the dictionary comprehension over \<open>nodes\<close>.\<close>

fun metadata_signature ::
  "('n, 'b, 'fs, 'm) runtime \<Rightarrow> ('n, 'm) dict \<Rightarrow> 'n list \<Rightarrow> 'm signature \<Rightarrow> error + 'm signature" where
  "metadata_signature rt metadata [] sig = Inr sig"
| "metadata_signature rt metadata (e # nodes) sig =
     (case map_of metadata e of
        None \<Rightarrow> Inl KeyError
      | Some m \<Rightarrow> metadata_signature rt metadata nodes (dict_set (node_path rt e) m sig))"

text \<open>The loop \<open>for dep in all_dependencies[node]\<close> that fills \<open>changed\<close>.\<close>

fun changed_deps ::
  "('n, 'b, 'fs, 'm) runtime \<Rightarrow> 'm signature option \<Rightarrow> 'm signature \<Rightarrow> 'n list \<Rightarrow> 'n list \<Rightarrow> 'n list" where
  "changed_deps rt old_metadata new_metadata [] changed = changed"
| "changed_deps rt old_metadata new_metadata (dep # deps) changed =
     changed_deps rt old_metadata new_metadata deps
       (case old_metadata of
          None \<Rightarrow> changed
        | Some old \<Rightarrow>
            if map_of old (node_path rt dep) \<noteq> map_of new_metadata (node_path rt dep)
            then set_add dep changed else changed)"

text \<open>The loop \<open>for node in all_nodes\<close> that fills \<open>outdated\<close> and \<open>changed\<close>.\<close>

fun find_outdated ::
  "('n list \<Rightarrow> 'n list) \<Rightarrow> ('n, 'b) world \<Rightarrow> ('n, 'b, 'fs, 'm) runtime \<Rightarrow> ('b, 'fs) run_state \<Rightarrow>
     ('n, 'm) dict \<Rightarrow> ('n, 'n list) dict \<Rightarrow> 'n list \<Rightarrow> 'n list \<times> 'n list \<Rightarrow>
     error + ('n list \<times> 'n list)" where
  "find_outdated it w rt s metadata all_dependencies [] (outdated, changed) =
     Inr (outdated, changed)"
| "find_outdated it w rt s metadata all_dependencies (node # nodes) (outdated, changed) =
     (if is_entry w node \<and> builder w node \<noteq> None then
        (if \<not> path_exists rt (rs_fs s) node
         then find_outdated it w rt s metadata all_dependencies nodes
                (set_add node outdated, changed)
         else
           (case map_of all_dependencies node of
              None \<Rightarrow> Inl KeyError
            | Some deps \<Rightarrow>
                (case metadata_signature rt metadata (it deps) [] of
                   Inl e \<Rightarrow> Inl e
                 | Inr new_metadata \<Rightarrow>
                     let old_metadata = execution_get_metadata rt (node_path rt node) (rs_db s)
                     in if (case old_metadata of
                              None \<Rightarrow> True
                            | Some old \<Rightarrow> dict_differs old new_metadata)
                        then find_outdated it w rt s metadata all_dependencies nodes
                               (set_add node outdated,
                                changed_deps rt old_metadata new_metadata (it deps) changed)
                        else find_outdated it w rt s metadata all_dependencies nodes
                               (outdated, changed))))
      else find_outdated it w rt s metadata all_dependencies nodes (outdated, changed))"

text \<open>
  \<open>prepare_build\<close>. The result \<open>None\<close> means that the call does not return (the ancestor
  loop runs forever); \<open>Some (Inl e)\<close> that it raises \<open>e\<close>.
\<close>

definition prepare_build ::
  "('n::finite list \<Rightarrow> 'n list) \<Rightarrow> ('n, 'b) world \<Rightarrow> ('n, 'b, 'fs, 'm) runtime \<Rightarrow> 'n execution \<Rightarrow>
     ('b, 'fs) run_state \<Rightarrow> 'n args \<Rightarrow> (error + 'n prepared_build) option" where
  "prepare_build it w rt ex s targets =
     (case args_to_nodes ex targets of
        Inl e \<Rightarrow> Some (Inl e)
      | Inr target_nodes \<Rightarrow>
          (case traverse_node_graph it w target_nodes of
             (all_nodes, edges) \<Rightarrow>
               (case sort_dag it (node_str w) all_nodes edges of
                  Inl e \<Rightarrow> Some (Inl e)
                | Inr ordered_nodes \<Rightarrow>
                    (case all_dependencies_loop (is_entry w) edges all_nodes [] of
                       None \<Rightarrow> None
                     | Some all_dependencies \<Rightarrow>
                         (case gather_metadata w rt (rs_fs s)
                                 (it (pyset (filter (is_entry w) all_nodes))) [] of
                            Inl e \<Rightarrow> Some (Inl e)
                          | Inr metadata \<Rightarrow>
                              (case find_outdated it w rt s metadata all_dependencies
                                      all_nodes ([], []) of
                                 Inl e \<Rightarrow> Some (Inl e)
                               | Inr (outdated, changed) \<Rightarrow>
                                   Some (Inr
                                     \<lparr> pb_ordered_nodes = ordered_nodes,
                                       pb_buildable_entries =
                                         pyset (filter (\<lambda>e. is_entry w e \<and> builder w e \<noteq> None)
                                           ordered_nodes),
                                       pb_edges = edges,
                                       pb_out_of_date = outdated,
                                       pb_changed = changed,
                                       pb_entry_dependencies = all_dependencies,
                                       pb_targets = target_nodes \<rparr>)))))))"

subsection \<open>\<open>build_targets\<close>, serial\<close>

definition not_output_message :: "string \<Rightarrow> string \<Rightarrow> string" where
  "not_output_message b entry = ''Builder '' @ b @ '' didn't output '' @ entry"

text \<open>
  \<open>_call_builder\<close>: remove and prepare the entries the builder builds, run \<open>build()\<close>,
  check that every entry it builds exists. The call is recorded first.
\<close>

definition call_builder ::
  "('n, 'b) world \<Rightarrow> ('n, 'b, 'fs, 'm) runtime \<Rightarrow> bool \<Rightarrow> 'b \<Rightarrow> ('b, 'fs) run_state \<Rightarrow>
     error option \<times> ('b, 'fs) run_state" where
  "call_builder w rt dry_run b s =
     (let called = s\<lparr> rs_invoked := rs_invoked s @ [b] \<rparr>;
          entries = filter (is_entry w) (builds w b)
      in if dry_run then (None, called)
         else
           let prepared = called\<lparr> rs_fs :=
                 fold (prepare_entry rt) entries (fold (remove_entry rt) entries (rs_fs called)) \<rparr>
           in (case run_build rt b (rs_fs prepared) of
                 Inl e \<Rightarrow> (Some e, prepared)
               | Inr fs' \<Rightarrow>
                   (case find (\<lambda>e. \<not> path_exists rt fs' e) entries of
                      Some e \<Rightarrow>
                        (Some (DependencyError
                           (not_output_message (builder_str rt b) (node_str w e))),
                         prepared\<lparr> rs_fs := fs' \<rparr>)
                    | None \<Rightarrow> (None, prepared\<lparr> rs_fs := fs' \<rparr>))))"

text \<open>The loop \<open>for dep in entry_dependencies[built_entry]\<close> that fills the cache.\<close>

fun fill_cache ::
  "('n, 'b, 'fs, 'm) runtime \<Rightarrow> 'fs \<Rightarrow> 'n list \<Rightarrow> ('n, 'm) dict \<Rightarrow> error + ('n, 'm) dict" where
  "fill_cache rt fs [] metadata_cache = Inr metadata_cache"
| "fill_cache rt fs (dep # deps) metadata_cache =
     (case map_of metadata_cache dep of
        Some m \<Rightarrow> fill_cache rt fs deps metadata_cache
      | None \<Rightarrow>
          (case file_get_metadata rt fs dep of
             Inl e \<Rightarrow> Inl e
           | Inr m \<Rightarrow> fill_cache rt fs deps (dict_set dep m metadata_cache)))"

text \<open>
  \<open>_update_builder_metadata\<close>, the loop over \<open>builder.builds\<close>. \<open>entry_dependencies\<close> is
  the plain dictionary \<open>all_dependencies\<close>, so a missing key raises \<open>KeyError\<close>.
\<close>

fun update_builder_metadata ::
  "('n list \<Rightarrow> 'n list) \<Rightarrow> ('n, 'b) world \<Rightarrow> ('n, 'b, 'fs, 'm) runtime \<Rightarrow> ('n, 'n list) dict \<Rightarrow>
     'n list \<Rightarrow> ('n, 'm) dict \<times> ('b, 'fs) run_state \<Rightarrow>
     error option \<times> ('n, 'm) dict \<times> ('b, 'fs) run_state" where
  "update_builder_metadata it w rt entry_dependencies [] (metadata_cache, s) =
     (None, metadata_cache, s)"
| "update_builder_metadata it w rt entry_dependencies (built_entry # others) (metadata_cache, s) =
     (if is_entry w built_entry then
        (case map_of entry_dependencies built_entry of
           None \<Rightarrow> (Some KeyError, metadata_cache, s)
         | Some deps \<Rightarrow>
             (case fill_cache rt (rs_fs s) (it deps) metadata_cache of
                Inl e \<Rightarrow> (Some e, metadata_cache, s)
              | Inr cache' \<Rightarrow>
                  (case metadata_signature rt cache' (it deps) [] of
                     Inl e \<Rightarrow> (Some e, cache', s)
                   | Inr sig \<Rightarrow>
                       (case execution_set_metadata rt (node_path rt built_entry) sig (rs_db s) of
                          Inl e \<Rightarrow> (Some e, cache', s)
                        | Inr db' \<Rightarrow>
                            update_builder_metadata it w rt entry_dependencies others
                              (cache', s\<lparr> rs_db := db' \<rparr>)))))
      else update_builder_metadata it w rt entry_dependencies others (metadata_cache, s))"

text \<open>
  The serial loop \<open>for node in ordered_nodes\<close>, with its local variables \<open>built_nodes\<close>
  and \<open>metadata_cache\<close>. It returns the exception that ended it, if any, and the state
  it left.
\<close>

fun serial_loop ::
  "('n list \<Rightarrow> 'n list) \<Rightarrow> ('n, 'b) world \<Rightarrow> ('n, 'b, 'fs, 'm) runtime \<Rightarrow> bool \<Rightarrow>
     ('n, 'n list) dict \<Rightarrow> 'n set \<Rightarrow> 'n list \<Rightarrow> 'n set \<times> ('n, 'm) dict \<times> ('b, 'fs) run_state \<Rightarrow>
     error option \<times> ('b, 'fs) run_state" where
  "serial_loop it w rt dry_run entry_dependencies to_build [] (built_nodes, metadata_cache, s) =
     (None, s)"
| "serial_loop it w rt dry_run entry_dependencies to_build (node # nodes)
       (built_nodes, metadata_cache, s) =
     (if node \<in> to_build \<and> node \<notin> built_nodes then
        (case builder w node of
           None \<Rightarrow>
             serial_loop it w rt dry_run entry_dependencies to_build nodes
               (built_nodes, metadata_cache, s)
         | Some b \<Rightarrow>
             (case call_builder w rt dry_run b s of
                (Some e, s') \<Rightarrow> (Some e, s')
              | (None, s') \<Rightarrow>
                  if dry_run then
                    serial_loop it w rt dry_run entry_dependencies to_build nodes
                      (built_nodes \<union> set (builds w b), metadata_cache, s')
                  else
                    (case update_builder_metadata it w rt entry_dependencies (builds w b)
                            (metadata_cache, s') of
                       (Some e, cache', s'') \<Rightarrow> (Some e, s'')
                     | (None, cache', s'') \<Rightarrow>
                         serial_loop it w rt dry_run entry_dependencies to_build nodes
                           (built_nodes \<union> set (builds w b), cache', s''))))
      else serial_loop it w rt dry_run entry_dependencies to_build nodes
             (built_nodes, metadata_cache, s))"

text \<open>
  \<open>build_targets\<close> from the prepared build on. \<open>parallel\<close> is the number the argument
  stands for (\<open>True\<close> is the CPU count, \<open>False\<close> is 1). With \<open>parallel > 1\<close> and no dry
  run the thread pool takes over; the model covers the serial scheduler only and has
  no value there.
\<close>

definition run_prepared ::
  "('n list \<Rightarrow> 'n list) \<Rightarrow> ('n, 'b) world \<Rightarrow> ('n, 'b, 'fs, 'm) runtime \<Rightarrow> bool \<Rightarrow> nat \<Rightarrow>
     'n prepared_build \<Rightarrow> ('b, 'fs) run_state \<Rightarrow> (error option \<times> ('b, 'fs) run_state) option" where
  "run_prepared it w rt dry_run parallel pb s =
     (let to_build = get_to_build w pb
      in if to_build = {} then Some (None, s)
         else if parallel > 1 \<and> \<not> dry_run then None
         else Some (serial_loop it w rt dry_run (pb_entry_dependencies pb) to_build
                      (pb_ordered_nodes pb) ({}, [], s)))"

definition build_targets ::
  "('n::finite list \<Rightarrow> 'n list) \<Rightarrow> ('n, 'b) world \<Rightarrow> ('n, 'b, 'fs, 'm) runtime \<Rightarrow> 'n execution \<Rightarrow>
     'n args option \<Rightarrow> 'n prepared_build option \<Rightarrow> bool \<Rightarrow> nat \<Rightarrow> ('b, 'fs) run_state \<Rightarrow>
     (error option \<times> ('b, 'fs) run_state) option" where
  "build_targets it w rt ex targets prepared_build dry_run parallel s =
     (case prepared_build of
        None \<Rightarrow>
          (case targets of
             None \<Rightarrow> Some (Some ValueError, s)
           | Some t \<Rightarrow>
               (case prepare_build it w rt ex s t of
                  None \<Rightarrow> None
                | Some (Inl e) \<Rightarrow> Some (Some e, s)
                | Some (Inr pb) \<Rightarrow> run_prepared it w rt dry_run parallel pb s))
      | Some pb \<Rightarrow>
          (case targets of
             Some t \<Rightarrow> Some (Some ValueError, s)
           | None \<Rightarrow> run_prepared it w rt dry_run parallel pb s))"

section \<open>A concrete heap\<close>

text \<open>
  Four node handles and two builder handles, for the concrete graphs the theorems are
  instantiated at.
\<close>

datatype nd = NA | NB | NC | ND

datatype bd = B1 | B2

lemma UNIV_nd: "(UNIV :: nd set) = {NA, NB, NC, ND}"
  by (auto intro: nd.exhaust)

instantiation nd :: finite
begin
instance
  by standard (simp add: UNIV_nd)
end

text \<open>A world with no dependencies and no builders.\<close>

definition world_plain :: "(nd, bd) world" where
  "world_plain =
     \<lparr> depends = (\<lambda>n. []), builder = (\<lambda>n. None), b_depends = (\<lambda>b. []),
       builds = (\<lambda>b. []), is_entry = (\<lambda>n. True), node_str = (\<lambda>n. []) \<rparr>"

text \<open>An execution with no alias and no entry registered.\<close>

definition empty_execution :: "nd execution" where
  "empty_execution =
     \<lparr> ex_aliases = (\<lambda>s. None), ex_entries = (\<lambda>p. None), ex_root_joinpath = (\<lambda>s. ''/root/'' @ s) \<rparr>"

text \<open>
  A runtime whose file system is the set of the entries whose path exists; the file
  metadata is the unit value, and \<open>build()\<close> leaves the file system as it is.
\<close>

definition plain_runtime :: "(nd, bd, nd set, unit) runtime" where
  "plain_runtime =
     \<lparr> node_path = (\<lambda>n. case n of NA \<Rightarrow> ''/a'' | NB \<Rightarrow> ''/b'' | NC \<Rightarrow> ''/c'' | ND \<Rightarrow> ''/d''),
       builder_str = (\<lambda>b. []),
       path_exists = (\<lambda>fs n. n \<in> fs), stat_metadata = (\<lambda>fs n. ()),
       remove_entry = (\<lambda>n fs. fs - {n}), prepare_entry = (\<lambda>n fs. fs),
       run_build = (\<lambda>b fs. Inr fs), json_dumps = (\<lambda>sig. []), json_loads = (\<lambda>row. []) \<rparr>"

definition empty_state :: "(bd, nd set) run_state" where
  "empty_state = \<lparr> rs_fs = {}, rs_db = (\<lambda>p. None), rs_invoked = [] \<rparr>"

section \<open>Notions the statements use\<close>

text \<open>The edge relation of a dictionary of dependency lists: \<open>n\<close> depends on \<open>d\<close>.\<close>

definition dep_rel :: "('n, 'n list) dict \<Rightarrow> ('n \<times> 'n) set" where
  "dep_rel edges = {(n, d). d \<in> set (dict_get edges n)}"

text \<open>
  \<open>reverse_edges\<close> is the inverse of \<open>edges\<close>, and both store duplicate-free sets.
\<close>

definition consistent :: "('n, 'n list) dict \<Rightarrow> ('n \<Rightarrow> 'n list) \<Rightarrow> bool" where
  "consistent edges R =
     ((\<forall>m node. (m \<in> set (R node)) = (node \<in> set (dict_get edges m))) \<and>
      (\<forall>k. distinct (dict_get edges k)) \<and> (\<forall>k. distinct (R k)))"

text \<open>
  The invariant of the loop of \<open>_sort_dag\<close>: the edges left are the original edges into
  nodes not yet emitted; emitted and pending nodes are the input nodes without an edge
  left; every emitted node comes after all its dependencies.
\<close>

definition sort_inv ::
  "'n list \<Rightarrow> ('n, 'n list) dict \<Rightarrow> ('n, 'n list) dict \<Rightarrow> ('n \<Rightarrow> 'n list) \<Rightarrow> 'n list \<Rightarrow> 'n list \<Rightarrow> bool" where
  "sort_inv nodes edges0 edges R sorted_nodes leaf_nodes =
     (consistent edges R \<and> map fst edges = map fst edges0 \<and>
      dep_rel edges = {(n, d). (n, d) \<in> dep_rel edges0 \<and> d \<notin> set sorted_nodes} \<and>
      set sorted_nodes \<union> set leaf_nodes = {n. n \<in> set nodes \<and> dict_get edges n = []} \<and>
      (\<forall>xs n ys. sorted_nodes = xs @ n # ys \<longrightarrow> set (dict_get edges0 n) \<subseteq> set xs) \<and>
      (distinct nodes \<longrightarrow> distinct (sorted_nodes @ leaf_nodes)))"

text \<open>
  The effective out-edges of a node, the graph they form, the nodes reachable from the
  targets, and the graph restricted to reachable sources.
\<close>

definition out_edges :: "('n, 'b) world \<Rightarrow> 'n \<Rightarrow> 'n set" where
  "out_edges w n =
     set (depends w n) \<union>
     (case builder w n of
        None \<Rightarrow> {}
      | Some b \<Rightarrow> set (b_depends w b) \<union> (\<Union>s\<in>set (builds w b). set (depends w s)))"

definition dep_graph :: "('n, 'b) world \<Rightarrow> ('n \<times> 'n) set" where
  "dep_graph w = {(n, d). d \<in> out_edges w n}"

definition reachable :: "('n, 'b) world \<Rightarrow> 'n list \<Rightarrow> 'n set" where
  "reachable w targets = {n. \<exists>t\<in>set targets. (t, n) \<in> (dep_graph w)\<^sup>*}"

text \<open>The invariant of the loop of \<open>_traverse_node_graph\<close>.\<close>

definition trav_inv ::
  "('n, 'b) world \<Rightarrow> 'n list \<Rightarrow> 'n list \<Rightarrow> 'n set \<Rightarrow> 'n list \<Rightarrow> ('n, 'n list) dict \<Rightarrow> bool" where
  "trav_inv w targets to_visit seen reachable_entries edges =
     (seen = set reachable_entries \<and> distinct (map fst edges) \<and>
      (\<forall>n. set (dict_get edges n) = (if n \<in> seen then out_edges w n else {})) \<and>
      (\<forall>n\<in>seen. out_edges w n \<subseteq> seen \<union> set to_visit) \<and>
      set targets \<subseteq> seen \<union> set to_visit \<and>
      seen \<union> set to_visit \<subseteq> reachable w targets)"

definition reachable_graph :: "('n, 'b) world \<Rightarrow> 'n list \<Rightarrow> ('n \<times> 'n) set" where
  "reachable_graph w targets = {(n, d). n \<in> reachable w targets \<and> d \<in> out_edges w n}"



text \<open>
  The invariant of the node model that registration keeps: a node that has a builder
  is one of the nodes that builder builds.
\<close>

definition builders_own_outputs :: "('n, 'b) world \<Rightarrow> bool" where
  "builders_own_outputs w = (\<forall>n b. builder w n = Some b \<longrightarrow> n \<in> set (builds w b))"

section \<open>Concrete graphs, registries and builds\<close>

text \<open>A three-node chain with a shortcut: \<open>NA\<close> depends on \<open>NB\<close> and \<open>NC\<close>, \<open>NB\<close> on \<open>NC\<close>.\<close>

definition graph_example :: "(nd, nd list) dict" where
  "graph_example = [(NA, [NB, NC]), (NB, [NC])]"

text \<open>
  A builder \<open>B1\<close> with the input \<open>NB\<close> and the two outputs \<open>NA\<close> and \<open>NC\<close>, of which
  \<open>NC\<close> depends on \<open>ND\<close>.
\<close>

definition world_siblings :: "(nd, bd) world" where
  "world_siblings =
     \<lparr> depends = (\<lambda>n. if n = NC then [ND] else []),
       builder = (\<lambda>n. if n = NA \<or> n = NC then Some B1 else None),
       b_depends = (\<lambda>b. if b = B1 then [NB] else []),
       builds = (\<lambda>b. if b = B1 then [NA, NC] else []),
       is_entry = (\<lambda>n. True),
       node_str = (\<lambda>n. []) \<rparr>"


text \<open>
  \<open>NA\<close> and \<open>NB\<close> both depend on \<open>ND\<close>, which is the only node that is not an Entry;
  the prepared build has only \<open>NA\<close> out of date.
\<close>

definition world_fileset :: "(nd, bd) world" where
  "world_fileset =
     \<lparr> depends = (\<lambda>n. if n = NA \<or> n = NB then [ND] else []),
       builder = (\<lambda>n. None),
       b_depends = (\<lambda>b. []),
       builds = (\<lambda>b. []),
       is_entry = (\<lambda>n. n \<noteq> ND),
       node_str = (\<lambda>n. []) \<rparr>"

definition prepared_fileset :: "nd prepared_build" where
  "prepared_fileset =
     \<lparr> pb_ordered_nodes = [ND, NA, NB], pb_buildable_entries = [],
       pb_edges = [(NA, [ND]), (NB, [ND])], pb_out_of_date = [NA], pb_changed = [],
       pb_entry_dependencies = [], pb_targets = [NA, NB] \<rparr>"







text \<open>\<open>X\<close> depends on \<open>Y\<close> and \<open>Y\<close> on \<open>X\<close>.\<close>

definition world_cycle :: "(nd, bd) world" where
  "world_cycle =
     \<lparr> depends = (\<lambda>n. if n = NA then [NB] else if n = NB then [NA] else []),
       builder = (\<lambda>n. None),
       b_depends = (\<lambda>b. []),
       builds = (\<lambda>b. []),
       is_entry = (\<lambda>n. True),
       node_str = (\<lambda>n. if n = NA then ''X'' else if n = NB then ''Y'' else ''Z'') \<rparr>"

text \<open>
  One builder with the two outputs \<open>NA\<close> and \<open>NC\<close>, both out of date in the prepared
  build.
\<close>

definition world_two_outputs :: "(nd, bd) world" where
  "world_two_outputs =
     \<lparr> depends = (\<lambda>n. []),
       builder = (\<lambda>n. if n = NA \<or> n = NC then Some B1 else None),
       b_depends = (\<lambda>b. []),
       builds = (\<lambda>b. if b = B1 then [NA, NC] else []),
       is_entry = (\<lambda>n. True),
       node_str = (\<lambda>n. []) \<rparr>"

definition prepared_two_outputs :: "nd prepared_build" where
  "prepared_two_outputs =
     \<lparr> pb_ordered_nodes = [NA, NC], pb_buildable_entries = [NA, NC],
       pb_edges = [], pb_out_of_date = [NA, NC], pb_changed = [],
       pb_entry_dependencies = [(NA, []), (NC, [])], pb_targets = [NA, NC] \<rparr>"

text \<open>A runtime whose builders write both outputs.\<close>

definition writing_runtime :: "(nd, bd, nd set, unit) runtime" where
  "writing_runtime = plain_runtime \<lparr> run_build := (\<lambda>b fs. Inr (fs \<union> {NA, NC})) \<rparr>"

section \<open>Correctness of the topological sort\<close>

lemma set_iter_okD:
  "set_iter_ok it \<Longrightarrow> distinct xs \<Longrightarrow> distinct (it xs) \<and> set (it xs) = set xs"
  by (simp add: set_iter_ok_def)

lemma dict_get_in_set:
  "distinct (map fst d) \<Longrightarrow> (k, v) \<in> set d \<Longrightarrow> dict_get d k = v"
  by (simp add: dict_get_def)

lemma dict_get_nonempty_key:
  "dict_get d k \<noteq> [] \<Longrightarrow> (k, dict_get d k) \<in> set d"
  by (induction d) (auto split: if_splits)

lemma add_reverse_set:
  "set (add_reverse e deps R d) = set (R d) \<union> (if d \<in> set deps then {e} else {})"
  by (induction deps arbitrary: R) (auto simp: set_add_def)

lemma add_reverse_distinct:
  "(\<And>k. distinct (R k)) \<Longrightarrow> distinct (add_reverse e deps R d)"
proof (induction deps arbitrary: R)
  case Nil
  then show ?case by simp
next
  case (Cons a deps)
  have "distinct ((R(a := set_add e (R a))) k)" for k
    using Cons.prems [of k] Cons.prems [of a] by (simp add: set_add_def)
  from Cons.IH [of "R(a := set_add e (R a))", OF this] show ?case
    by (simp only: add_reverse.simps)
qed

lemma build_reverse_set:
  "set (build_reverse it items R d) =
     set (R d) \<union> {e. \<exists>deps. (e, deps) \<in> set items \<and> d \<in> set (it deps)}"
  by (induction items arbitrary: R) (auto simp: add_reverse_set split: if_splits)

lemma build_reverse_distinct:
  "(\<And>k. distinct (R k)) \<Longrightarrow> distinct (build_reverse it items R d)"
proof (induction items arbitrary: R)
  case Nil
  then show ?case by simp
next
  case (Cons p items)
  obtain e deps where p: "p = (e, deps)" by (cases p)
  have "distinct (add_reverse e (it deps) R k)" for k
    using Cons.prems by (rule add_reverse_distinct)
  from Cons.IH [of "add_reverse e (it deps) R", OF this] show ?case by (simp add: p)
qed

lemma consistent_build_reverse:
  assumes it: "set_iter_ok it" and keys: "distinct (map fst edges)"
    and dist: "\<And>k. distinct (dict_get edges k)"
  shows "consistent edges (build_reverse it edges (\<lambda>k. []))"
proof -
  have "(m \<in> set (build_reverse it edges (\<lambda>k. []) node)) = (node \<in> set (dict_get edges m))"
    for m node
  proof
    assume "m \<in> set (build_reverse it edges (\<lambda>k. []) node)"
    then obtain deps where in_e: "(m, deps) \<in> set edges" and nd: "node \<in> set (it deps)"
      by (auto simp: build_reverse_set)
    from dict_get_in_set [OF keys in_e] have g: "dict_get edges m = deps" .
    with dist [of m] have "distinct deps" by simp
    with set_iter_okD [OF it] nd g show "node \<in> set (dict_get edges m)" by auto
  next
    assume a: "node \<in> set (dict_get edges m)"
    then have "dict_get edges m \<noteq> []" by auto
    from dict_get_nonempty_key [OF this] have in_e: "(m, dict_get edges m) \<in> set edges" .
    from set_iter_okD [OF it dist [of m]] a have "node \<in> set (it (dict_get edges m))" by simp
    with in_e show "m \<in> set (build_reverse it edges (\<lambda>k. []) node)"
      by (auto simp: build_reverse_set)
  qed
  then show ?thesis
    by (simp add: consistent_def dist build_reverse_distinct)
qed

lemma filter_neq_notin: "x \<notin> set xs \<Longrightarrow> filter (\<lambda>y. y \<noteq> x) xs = xs"
  by (induction xs) auto

lemma remove1_filter: "distinct xs \<Longrightarrow> remove1 x xs = filter (\<lambda>y. y \<noteq> x) xs"
  by (induction xs) (auto simp: filter_neq_notin)

lemma remove_incoming_eq:
  assumes "distinct ms" and "set ms \<subseteq> set (R node)"
    and "\<forall>m\<in>set ms. node \<in> set (dict_get edges m)" and "distinct (R node)"
  shows "\<exists>edges'. remove_incoming node ms (edges, R, leaves) =
           Inr (edges', R(node := filter (\<lambda>x. x \<notin> set ms) (R node)),
                rev (filter (\<lambda>m. remove1 node (dict_get edges m) = []) ms) @ leaves) \<and>
         (\<forall>k. dict_get edges' k =
            (if k \<in> set ms then remove1 node (dict_get edges k) else dict_get edges k)) \<and>
         map fst edges' = map fst edges"
  using assms
proof (induction ms arbitrary: edges R leaves)
  case Nil
  have "R(node := R node) = R" by auto
  then show ?case by simp
next
  case (Cons m ms)
  let ?e = "dict_set m (remove1 node (dict_get edges m)) edges"
  let ?R = "R(node := remove1 m (R node))"
  let ?l = "if dict_get ?e m = [] then m # leaves else leaves"
  from Cons.prems have m_in: "m \<in> set (R node)" and n_in: "node \<in> set (dict_get edges m)"
    and m_notin: "m \<notin> set ms" and dms: "distinct ms"
    by auto
  have step: "remove_incoming node (m # ms) (edges, R, leaves) = remove_incoming node ms (?e, ?R, ?l)"
    using m_in n_in by (simp add: Let_def)
  have p1: "set ms \<subseteq> set (?R node)"
    using Cons.prems m_notin by auto
  have p2: "\<forall>m'\<in>set ms. node \<in> set (dict_get ?e m')"
    using Cons.prems m_notin by auto
  have p3: "distinct (?R node)"
    using Cons.prems by simp
  from Cons.IH [where R = ?R and edges = ?e and leaves = ?l, OF dms p1 p2 p3]
  obtain edges' where
    r: "remove_incoming node ms (?e, ?R, ?l) =
          Inr (edges', ?R(node := filter (\<lambda>x. x \<notin> set ms) (?R node)),
               rev (filter (\<lambda>m. remove1 node (dict_get ?e m) = []) ms) @ ?l)"
    and g: "\<forall>k. dict_get edges' k =
            (if k \<in> set ms then remove1 node (dict_get ?e k) else dict_get ?e k)"
    and k: "map fst edges' = map fst ?e"
    by blast
  have R_eq: "?R(node := filter (\<lambda>x. x \<notin> set ms) (?R node)) =
      R(node := filter (\<lambda>x. x \<notin> set (m # ms)) (R node))"
    using Cons.prems(4) by (auto simp: remove1_filter conj_commute)
  have f_eq: "filter (\<lambda>m'. remove1 node (dict_get ?e m') = []) ms =
      filter (\<lambda>m'. remove1 node (dict_get edges m') = []) ms"
    using m_notin by (intro filter_cong) auto
  have l_eq: "rev (filter (\<lambda>m. remove1 node (dict_get ?e m) = []) ms) @ ?l =
      rev (filter (\<lambda>m. remove1 node (dict_get edges m) = []) (m # ms)) @ leaves"
    unfolding f_eq by simp
  have "m \<in> fst ` set edges"
    using dict_get_nonempty_key [of edges m] n_in by force
  then have k_eq: "map fst ?e = map fst edges"
    by (simp add: map_fst_dict_set)
  have g_eq: "\<forall>k. dict_get edges' k =
      (if k \<in> set (m # ms) then remove1 node (dict_get edges k) else dict_get edges k)"
    using g m_notin by auto
  show ?case
    unfolding step r R_eq l_eq using g_eq k k_eq by auto
qed

lemma sort_inv_step:
  assumes it: "set_iter_ok it" and field: "Field (dep_rel edges0) \<subseteq> set nodes"
    and inv: "sort_inv nodes edges0 edges R sorted_nodes (node # leaf_nodes)"
  shows "\<exists>edges' R' leaf_nodes'.
           remove_incoming node (it (R node)) (edges, R, leaf_nodes) = Inr (edges', R', leaf_nodes') \<and>
           sort_inv nodes edges0 edges' R' (sorted_nodes @ [node]) leaf_nodes'"
proof -
  let ?ms = "it (R node)"
  from inv have cons: "consistent edges R"
    and keys: "map fst edges = map fst edges0"
    and rel: "dep_rel edges = {(n, d). (n, d) \<in> dep_rel edges0 \<and> d \<notin> set sorted_nodes}"
    and emitted: "set sorted_nodes \<union> set (node # leaf_nodes) = {n. n \<in> set nodes \<and> dict_get edges n = []}"
    and topo: "\<forall>xs n ys. sorted_nodes = xs @ n # ys \<longrightarrow> set (dict_get edges0 n) \<subseteq> set xs"
    and dist: "distinct nodes \<longrightarrow> distinct (sorted_nodes @ node # leaf_nodes)"
    by (simp_all add: sort_inv_def)
  from cons have c1: "\<And>m nd. (m \<in> set (R nd)) = (nd \<in> set (dict_get edges m))"
    and c2: "\<And>k. distinct (dict_get edges k)" and c3: "\<And>k. distinct (R k)"
    by (simp_all add: consistent_def)
  from set_iter_okD [OF it c3 [of node]]
  have dms: "distinct ?ms" and sms: "set ?ms = set (R node)" by simp_all
  have pre: "\<forall>m\<in>set ?ms. node \<in> set (dict_get edges m)"
    using sms c1 by simp
  have sub: "set ?ms \<subseteq> set (R node)" using sms by simp
  from remove_incoming_eq [where ms = ?ms and R = R and node = node and edges = edges
      and leaves = leaf_nodes, OF dms sub pre c3 [of node]]
  obtain edges' where
    run: "remove_incoming node ?ms (edges, R, leaf_nodes) =
          Inr (edges', R(node := filter (\<lambda>x. x \<notin> set ?ms) (R node)),
               rev (filter (\<lambda>m. remove1 node (dict_get edges m) = []) ?ms) @ leaf_nodes)"
    and get: "\<And>k. dict_get edges' k =
            (if k \<in> set ?ms then remove1 node (dict_get edges k) else dict_get edges k)"
    and keys': "map fst edges' = map fst edges"
    by auto
  let ?R' = "R(node := filter (\<lambda>x. x \<notin> set ?ms) (R node))"
  let ?new = "filter (\<lambda>m. remove1 node (dict_get edges m) = []) ?ms"
  let ?l' = "rev ?new @ leaf_nodes"
  have Rnode: "?R' node = []"
    using sms by (simp add: filter_empty_conv)
  have mem: "(d \<in> set (dict_get edges' n)) = (d \<in> set (dict_get edges n) \<and> d \<noteq> node)" for n d
  proof (cases "n \<in> set ?ms")
    case True
    with get [of n] c2 [of n] show ?thesis by auto
  next
    case False
    then have "node \<notin> set (dict_get edges n)" using sms c1 by simp
    with False get [of n] show ?thesis by auto
  qed
  have cons': "consistent edges' ?R'"
    unfolding consistent_def
  proof (intro conjI allI)
    fix m nd
    show "(m \<in> set (?R' nd)) = (nd \<in> set (dict_get edges' m))"
    proof (cases "nd = node")
      case True
      with Rnode mem [of node m] show ?thesis by simp
    next
      case False
      with mem [of nd m] c1 [of m nd] show ?thesis by simp
    qed
  next
    fix k show "distinct (dict_get edges' k)"
      using get [of k] c2 [of k] by (simp add: distinct_remove1)
  next
    fix k show "distinct (?R' k)"
      using c3 [of k] c3 [of node] by simp
  qed
  have rel': "dep_rel edges' =
      {(n, d). (n, d) \<in> dep_rel edges0 \<and> d \<notin> set (sorted_nodes @ [node])}"
  proof -
    have "dep_rel edges' = {(n, d). (n, d) \<in> dep_rel edges \<and> d \<noteq> node}"
      by (auto simp: dep_rel_def mem)
    with rel show ?thesis by auto
  qed
  have ms_nodes: "set ?ms \<subseteq> set nodes"
  proof
    fix m assume "m \<in> set ?ms"
    with sms c1 have "(m, node) \<in> dep_rel edges" by (simp add: dep_rel_def)
    with rel have "(m, node) \<in> dep_rel edges0" by simp
    then have "m \<in> Field (dep_rel edges0)" by (auto simp: Field_def)
    with field show "m \<in> set nodes" by auto
  qed
  have ms_nonempty: "dict_get edges m \<noteq> []" if "m \<in> set ?ms" for m
    using pre that by auto
  have emitted': "set (sorted_nodes @ [node]) \<union> set ?l' =
      {n. n \<in> set nodes \<and> dict_get edges' n = []}"
  proof (intro set_eqI iffI)
    fix n assume "n \<in> set (sorted_nodes @ [node]) \<union> set ?l'"
    then consider "n \<in> set sorted_nodes \<union> set (node # leaf_nodes)" | "n \<in> set ?new"
      by auto
    then show "n \<in> {n. n \<in> set nodes \<and> dict_get edges' n = []}"
    proof cases
      case 1
      with emitted have "n \<in> set nodes" and e: "dict_get edges n = []" by auto
      from e ms_nonempty [of n] have "n \<notin> set ?ms" by auto
      with get [of n] e \<open>n \<in> set nodes\<close> show ?thesis by simp
    next
      case 2
      then have "n \<in> set ?ms" and "remove1 node (dict_get edges n) = []" by auto
      with get [of n] ms_nodes show ?thesis by auto
    qed
  next
    fix n assume "n \<in> {n. n \<in> set nodes \<and> dict_get edges' n = []}"
    then have nn: "n \<in> set nodes" and e: "dict_get edges' n = []" by auto
    show "n \<in> set (sorted_nodes @ [node]) \<union> set ?l'"
    proof (cases "n \<in> set ?ms")
      case True
      with get [of n] e have "n \<in> set ?new" by simp
      then show ?thesis by simp
    next
      case False
      with get [of n] e have "dict_get edges n = []" by simp
      with nn emitted have "n \<in> set sorted_nodes \<union> set (node # leaf_nodes)" by blast
      then show ?thesis by auto
    qed
  qed
  have node_leaf: "dict_get edges node = []"
    using emitted by auto
  have node_deps: "set (dict_get edges0 node) \<subseteq> set sorted_nodes"
  proof
    fix d assume "d \<in> set (dict_get edges0 node)"
    then have "(node, d) \<in> dep_rel edges0" by (simp add: dep_rel_def)
    moreover have "(node, d) \<notin> dep_rel edges" using node_leaf by (simp add: dep_rel_def)
    ultimately show "d \<in> set sorted_nodes" using rel by auto
  qed
  have topo': "\<forall>xs n ys. sorted_nodes @ [node] = xs @ n # ys \<longrightarrow>
      set (dict_get edges0 n) \<subseteq> set xs"
  proof (intro allI impI)
    fix xs n ys assume eq: "sorted_nodes @ [node] = xs @ n # ys"
    show "set (dict_get edges0 n) \<subseteq> set xs"
    proof (cases ys rule: rev_cases)
      case Nil
      with eq have "xs = sorted_nodes" "n = node" by auto
      with node_deps show ?thesis by simp
    next
      case (snoc ys' y)
      with eq have "sorted_nodes = xs @ n # ys'" by auto
      with topo show ?thesis by blast
    qed
  qed
  have dist': "distinct nodes \<longrightarrow> distinct ((sorted_nodes @ [node]) @ ?l')"
  proof
    assume "distinct nodes"
    with dist have d0: "distinct (sorted_nodes @ node # leaf_nodes)" by simp
    have "set ?new \<inter> (set sorted_nodes \<union> set (node # leaf_nodes)) = {}"
    proof (rule ccontr)
      assume "set ?new \<inter> (set sorted_nodes \<union> set (node # leaf_nodes)) \<noteq> {}"
      then obtain m where "m \<in> set ?ms" and "m \<in> set sorted_nodes \<union> set (node # leaf_nodes)"
        by auto
      with emitted ms_nonempty [of m] show False by auto
    qed
    with d0 dms show "distinct ((sorted_nodes @ [node]) @ ?l')"
      by auto
  qed
  have "sort_inv nodes edges0 edges' ?R' (sorted_nodes @ [node]) ?l'"
    unfolding sort_inv_def
  proof (intro conjI)
    show "map fst edges' = map fst edges0" by (simp only: keys' keys)
  qed (rule cons' rel' emitted' topo' dist')+
  with run show ?thesis by blast
qed

lemma sort_loop_correct:
  assumes "set_iter_ok it" and "Field (dep_rel edges0) \<subseteq> set nodes"
    and "sort_inv nodes edges0 edges R sorted_nodes leaf_nodes"
  shows "\<exists>edges' R' sorted'. sort_loop it edges R sorted_nodes leaf_nodes = Inr (edges', sorted') \<and>
           sort_inv nodes edges0 edges' R' sorted' []"
  using assms
proof (induction it edges R sorted_nodes leaf_nodes rule: sort_loop.induct)
  case (1 it edges reverse_edges sorted_nodes)
  then show ?case by auto
next
  case (2 it edges reverse_edges sorted_nodes node leaf_nodes)
  from sort_inv_step [OF "2.prems"]
  obtain edges' R' leaf_nodes' where
    run: "remove_incoming node (it (reverse_edges node)) (edges, reverse_edges, leaf_nodes) =
            Inr (edges', R', leaf_nodes')"
    and inv': "sort_inv nodes edges0 edges' R' (sorted_nodes @ [node]) leaf_nodes'"
    by blast
  from "2.IH" [OF run refl refl "2.prems"(1,2) inv'] run
  show ?case by simp
qed

lemma set_pyset [simp]: "set (pyset xs) = set xs"
  by (simp add: pyset_def)

lemma distinct_pyset [simp]: "distinct (pyset xs)"
  by (simp add: pyset_def)

lemma pyset_Nil [simp]: "pyset [] = []"
  by (simp add: pyset_def)

lemma dict_get_map_pyset:
  "dict_get (map (\<lambda>(e, deps). (e, pyset deps)) d) k = pyset (dict_get d k)"
  by (induction d) auto

lemma fst_comp_pyset: "fst \<circ> (\<lambda>(e, deps). (e, pyset deps)) = fst"
  by (auto simp: fun_eq_iff)

lemma map_fst_map_pyset:
  "map fst (map (\<lambda>(e, deps). (e, pyset deps)) d) = map fst d"
  by (simp add: fst_comp_pyset)

lemma dep_rel_map_pyset:
  "dep_rel (map (\<lambda>(e, deps). (e, pyset deps)) d) = dep_rel d"
  by (simp add: dep_rel_def dict_get_map_pyset)

lemma sort_inv_initial:
  assumes it: "set_iter_ok it" and keys: "distinct (map fst edges_orig)"
  defines "edges0 \<equiv> map (\<lambda>(e, deps). (e, pyset deps)) edges_orig"
  shows "sort_inv nodes edges0 edges0 (build_reverse it edges0 (\<lambda>k. [])) []
           (rev (filter (\<lambda>n. dict_get edges0 n = []) nodes))"
proof -
  have k0: "distinct (map fst edges0)"
    using keys by (simp add: edges0_def fst_comp_pyset)
  have d0: "distinct (dict_get edges0 k)" for k
    by (simp add: edges0_def dict_get_map_pyset)
  from consistent_build_reverse [OF it k0 d0]
  show ?thesis
    by (auto simp: sort_inv_def)
qed

lemma sort_loop_final:
  assumes it: "set_iter_ok it" and keys: "distinct (map fst edges_orig)"
    and field: "Field (dep_rel edges_orig) \<subseteq> set nodes"
  defines "edges0 \<equiv> map (\<lambda>(e, deps). (e, pyset deps)) edges_orig"
  shows "\<exists>edges' R' sorted'.
    sort_loop it edges0 (build_reverse it edges0 (\<lambda>k. [])) []
      (rev (filter (\<lambda>n. dict_get edges0 n = []) nodes)) = Inr (edges', sorted') \<and>
    sort_inv nodes edges0 edges' R' sorted' []"
proof -
  have f0: "Field (dep_rel edges0) \<subseteq> set nodes"
    using field by (simp add: edges0_def dep_rel_map_pyset)
  from sort_inv_initial [OF it keys, of nodes]
  have "sort_inv nodes edges0 edges0 (build_reverse it edges0 (\<lambda>k. [])) []
           (rev (filter (\<lambda>n. dict_get edges0 n = []) nodes))"
    by (simp add: edges0_def)
  from sort_loop_correct [OF it f0 this] show ?thesis .
qed

lemma list_ex_nonempty_dep_rel:
  assumes "distinct (map fst edges)"
  shows "list_ex (\<lambda>(n, deps). deps \<noteq> []) edges = (dep_rel edges \<noteq> {})"
proof
  assume "list_ex (\<lambda>(n, deps). deps \<noteq> []) edges"
  then obtain n deps where in_e: "(n, deps) \<in> set edges" and ne: "deps \<noteq> []"
    by (auto simp: list_ex_iff)
  from dict_get_in_set [OF assms in_e] ne obtain d where "d \<in> set (dict_get edges n)"
    by (cases deps) auto
  then have "(n, d) \<in> dep_rel edges" by (simp add: dep_rel_def)
  then show "dep_rel edges \<noteq> {}" by auto
next
  assume "dep_rel edges \<noteq> {}"
  then obtain n d where "(n, d) \<in> dep_rel edges" by auto
  then have "d \<in> set (dict_get edges n)" by (simp add: dep_rel_def)
  then have "dict_get edges n \<noteq> []" by auto
  from dict_get_nonempty_key [OF this] this
  show "list_ex (\<lambda>(n, deps). deps \<noteq> []) edges"
    by (auto simp: list_ex_iff)
qed

lemma acyclic_no_remaining:
  assumes inv: "sort_inv nodes edges0 edges' R' sorted' []"
    and field: "Field (dep_rel edges0) \<subseteq> set nodes"
    and acyc: "acyclic (dep_rel edges0)"
  shows "dep_rel edges' = {}"
proof (rule ccontr)
  assume ne: "dep_rel edges' \<noteq> {}"
  let ?E = "dep_rel edges'"
  from inv have rel: "?E = {(n, d). (n, d) \<in> dep_rel edges0 \<and> d \<notin> set sorted'}"
    and emitted: "set sorted' = {n. n \<in> set nodes \<and> dict_get edges' n = []}"
    by (simp_all add: sort_inv_def)
  have sub: "?E \<subseteq> dep_rel edges0" using rel by auto
  have "?E \<subseteq> set nodes \<times> set nodes"
    using sub field by (auto simp: Field_def)
  then have fin: "finite ?E" by (rule finite_subset) simp
  have "acyclic ?E" using acyc sub by (rule acyclic_subset)
  with fin have wf: "wf (?E\<inverse>)" by (rule finite_acyclic_wf_converse)
  from ne obtain n d where "(n, d) \<in> ?E" by auto
  then have "d \<in> Range ?E" by auto
  from wfE_min [OF wf this] obtain z where z: "z \<in> Range ?E"
    and zmin: "\<And>y. (y, z) \<in> ?E\<inverse> \<Longrightarrow> y \<notin> Range ?E"
    by blast
  from z obtain x where xz: "(x, z) \<in> ?E" by auto
  with rel have "z \<notin> set sorted'" and "(x, z) \<in> dep_rel edges0" by auto
  with field have "z \<in> set nodes" by (auto simp: Field_def)
  with \<open>z \<notin> set sorted'\<close> emitted have "dict_get edges' z \<noteq> []" by auto
  then obtain y where "(z, y) \<in> ?E" by (cases "dict_get edges' z") (auto simp: dep_rel_def)
  with zmin [of y] show False by auto
qed

lemma index_before:
  assumes "\<forall>xs n ys. s = xs @ n # ys \<longrightarrow> set (e n) \<subseteq> set xs"
    and "i < length s" and "d \<in> set (e (s ! i))"
  shows "\<exists>j<i. s ! j = d"
proof -
  from \<open>i < length s\<close> have "s = take i s @ s ! i # drop (Suc i) s"
    by (rule id_take_nth_drop)
  with assms(1) have "set (e (s ! i)) \<subseteq> set (take i s)" by blast
  with assms(3) have "d \<in> set (take i s)" by auto
  then obtain j where "j < length (take i s)" and "take i s ! j = d"
    by (auto simp: in_set_conv_nth)
  then show ?thesis by (intro exI [of _ j]) auto
qed

lemma sort_dag_acyclic:
  assumes "set_iter_ok it" and "distinct (map fst edges_orig)"
    and "Field (dep_rel edges_orig) \<subseteq> set nodes"
    and "acyclic (dep_rel edges_orig)"
  shows "\<exists>sorted_nodes. sort_dag it str nodes edges_orig = Inr sorted_nodes \<and>
           set sorted_nodes = set nodes \<and>
           (\<forall>i<length sorted_nodes. \<forall>d\<in>set (dict_get edges_orig (sorted_nodes ! i)).
               \<exists>j<i. sorted_nodes ! j = d) \<and>
           (distinct nodes \<longrightarrow> distinct sorted_nodes)"
proof -
  let ?e0 = "map (\<lambda>(e, deps). (e, pyset deps)) edges_orig"
  from sort_loop_final [OF assms(1-3)] obtain edges' R' sorted' where
    run: "sort_loop it ?e0 (build_reverse it ?e0 (\<lambda>k. [])) []
      (rev (filter (\<lambda>n. dict_get ?e0 n = []) nodes)) = Inr (edges', sorted')"
    and inv: "sort_inv nodes ?e0 edges' R' sorted' []"
    by blast
  have f0: "Field (dep_rel ?e0) \<subseteq> set nodes" and a0: "acyclic (dep_rel ?e0)"
    using assms(3,4) by (simp_all add: dep_rel_map_pyset)
  from acyclic_no_remaining [OF inv f0 a0] have empty: "dep_rel edges' = {}" .
  from inv have keys': "map fst edges' = map fst ?e0"
    and emitted: "set sorted' = {n. n \<in> set nodes \<and> dict_get edges' n = []}"
    and topo: "\<forall>xs n ys. sorted' = xs @ n # ys \<longrightarrow> set (dict_get ?e0 n) \<subseteq> set xs"
    and dist: "distinct nodes \<longrightarrow> distinct sorted'"
    by (simp_all add: sort_inv_def)
  have "distinct (map fst edges')"
    using keys' assms(2) by (simp add: fst_comp_pyset)
  from list_ex_nonempty_dep_rel [OF this] empty
  have no_cycle: "\<not> list_ex (\<lambda>(n, deps). deps \<noteq> []) edges'" by simp
  have res: "sort_dag it str nodes edges_orig = Inr sorted'"
    using run no_cycle by (simp add: sort_dag_def Let_def)
  have "dict_get edges' n = []" for n
    using empty by (cases "dict_get edges' n") (auto simp: dep_rel_def)
  with emitted have all: "set sorted' = set nodes" by simp
  have topo': "\<forall>xs n ys. sorted' = xs @ n # ys \<longrightarrow> set (dict_get edges_orig n) \<subseteq> set xs"
    using topo by (simp add: dict_get_map_pyset)
  have "\<forall>i<length sorted'. \<forall>d\<in>set (dict_get edges_orig (sorted' ! i)). \<exists>j<i. sorted' ! j = d"
    using index_before [OF topo'] by blast
  with res all dist show ?thesis by blast
qed

text \<open>
  C2: on an acyclic dependency graph, given as a node list and an edge dictionary over
  those nodes, \<open>_sort_dag\<close> returns a list that contains exactly the input nodes and in
  which every dependency of the node at a position stands at a strictly smaller
  position; when the node list has no repetition, neither has the result.
\<close>

theorem sort_dag_topological_order:
  assumes "set_iter_ok it" and "distinct (map fst edges_orig)"
    and "Field (dep_rel edges_orig) \<subseteq> set nodes"
    and "acyclic (dep_rel edges_orig)"
  shows "\<exists>sorted_nodes. sort_dag it str nodes edges_orig = Inr sorted_nodes \<and>
           set sorted_nodes = set nodes \<and>
           (\<forall>i<length sorted_nodes. \<forall>d\<in>set (dict_get edges_orig (sorted_nodes ! i)).
               \<exists>j<i. sorted_nodes ! j = d) \<and>
           (distinct nodes \<longrightarrow> distinct sorted_nodes)"
  using assms by (rule sort_dag_acyclic)

lemma dep_rel_graph_example: "dep_rel graph_example = {(NA, NB), (NA, NC), (NB, NC)}"
  by (auto simp: dep_rel_def graph_example_def split: if_splits)

lemma acyclic_graph_example: "acyclic (dep_rel graph_example)"
  unfolding dep_rel_graph_example
  by (rule acyclicI_order [where f = "\<lambda>n. case n of NA \<Rightarrow> 2 | NB \<Rightarrow> 1 | NC \<Rightarrow> 0 | ND \<Rightarrow> (0::nat)"])
    auto

lemma set_iter_ok_id: "set_iter_ok (\<lambda>xs. xs)"
  by (simp add: set_iter_ok_def)

theorem sort_dag_topological_order_witness:
  "set_iter_ok (\<lambda>xs :: nd list. xs) \<and> distinct (map fst graph_example) \<and>
   Field (dep_rel graph_example) \<subseteq> set [NA, NB, NC] \<and> acyclic (dep_rel graph_example) \<and>
   (\<exists>sorted_nodes. sort_dag (\<lambda>xs. xs) (\<lambda>n. []) [NA, NB, NC] graph_example = Inr sorted_nodes \<and>
      set sorted_nodes = set [NA, NB, NC] \<and>
      (\<forall>i<length sorted_nodes. \<forall>d\<in>set (dict_get graph_example (sorted_nodes ! i)).
          \<exists>j<i. sorted_nodes ! j = d) \<and>
      (distinct [NA, NB, NC] \<longrightarrow> distinct sorted_nodes))"
proof -
  have h1: "set_iter_ok (\<lambda>xs :: nd list. xs)" by (rule set_iter_ok_id)
  have h2: "distinct (map fst graph_example)" by (simp add: graph_example_def)
  have h3: "Field (dep_rel graph_example) \<subseteq> set [NA, NB, NC]"
    by (simp add: dep_rel_graph_example Field_def)
  have h4: "acyclic (dep_rel graph_example)" by (rule acyclic_graph_example)
  from sort_dag_topological_order [OF h1 h2 h3 h4, of "\<lambda>n. []"] h1 h2 h3 h4
  show ?thesis by blast
qed

section \<open>Correctness of the graph traversal\<close>

lemma set_it_pyset: "set_iter_ok it \<Longrightarrow> set (it (pyset xs)) = set xs"
  using set_iter_okD [of it "pyset xs"] by simp

lemma distinct_it_pyset: "set_iter_ok it \<Longrightarrow> distinct (it (pyset xs))"
  using set_iter_okD [of it "pyset xs"] by simp

lemma set_dependencies:
  "set_iter_ok it \<Longrightarrow> set (dependencies it w n) = out_edges w n"
  by (auto simp: dependencies_def out_edges_def set_it_pyset split: option.splits)

lemma distinct_map_fst_dict_set:
  "distinct (map fst d) \<Longrightarrow> distinct (map fst (dict_set k v d))"
  by (simp add: map_fst_dict_set)

lemma reachable_step:
  "n \<in> reachable w targets \<Longrightarrow> d \<in> out_edges w n \<Longrightarrow> d \<in> reachable w targets"
  by (auto simp: reachable_def dep_graph_def intro: rtrancl_into_rtrancl)

lemma trav_inv_step:
  assumes it: "set_iter_ok it"
    and inv: "trav_inv w targets (v # to_visit) seen reachable_entries edges"
  shows "trav_inv w targets
           (rev (filter (\<lambda>d. d \<notin> insert v seen) (dependencies it w v)) @ to_visit)
           (insert v seen) (reachable_entries @ [v])
           (if dependencies it w v = [] then edges
            else dict_set v (dict_get edges v @ dependencies it w v) edges)"
proof -
  let ?deps = "dependencies it w v"
  let ?edges' = "if ?deps = [] then edges else dict_set v (dict_get edges v @ ?deps) edges"
  from inv [unfolded trav_inv_def] have seen: "seen = set reachable_entries"
    and keys: "distinct (map fst edges)"
    and get: "\<And>n. set (dict_get edges n) = (if n \<in> seen then out_edges w n else {})"
    and closed: "\<And>n. n \<in> seen \<Longrightarrow> out_edges w n \<subseteq> seen \<union> set (v # to_visit)"
    and tg: "set targets \<subseteq> seen \<union> set (v # to_visit)"
    and reach: "seen \<union> set (v # to_visit) \<subseteq> reachable w targets"
    by blast+
  have sd: "set ?deps = out_edges w v" using it by (rule set_dependencies)
  have keys': "distinct (map fst ?edges')"
    using keys by (simp add: distinct_map_fst_dict_set)
  have get': "set (dict_get ?edges' n) = (if n \<in> insert v seen then out_edges w n else {})" for n
  proof (cases "n = v")
    case True
    show ?thesis
    proof (cases "?deps = []")
      case True
      with sd have "out_edges w v = {}" by simp
      with True \<open>n = v\<close> get [of v] show ?thesis by simp
    next
      case False
      with \<open>n = v\<close> get [of v] sd show ?thesis by auto
    qed
  next
    case False
    then have "dict_get ?edges' n = dict_get edges n" by simp
    with get [of n] False show ?thesis by (simp only: insert_iff) simp
  qed
  have closed': "out_edges w n \<subseteq> insert v seen \<union>
      set (rev (filter (\<lambda>d. d \<notin> insert v seen) ?deps) @ to_visit)"
    if "n \<in> insert v seen" for n
  proof (cases "n = v")
    case True
    with sd show ?thesis by auto
  next
    case False
    with that closed [of n] show ?thesis by auto
  qed
  have v_reach: "v \<in> reachable w targets" using reach by simp
  have reach': "insert v seen \<union> set (rev (filter (\<lambda>d. d \<notin> insert v seen) ?deps) @ to_visit)
      \<subseteq> reachable w targets"
    using reach reachable_step [OF v_reach] sd by auto
  show ?thesis
    unfolding trav_inv_def
  proof (intro conjI ballI allI)
    show "insert v seen = set (reachable_entries @ [v])" using seen by simp
    show "set targets \<subseteq> insert v seen \<union>
        set (rev (filter (\<lambda>d. d \<notin> insert v seen) ?deps) @ to_visit)"
      using tg by auto
  qed (rule keys' get' closed' reach' | assumption)+
qed

lemma traverse_loop_inv:
  assumes "set_iter_ok it" and "trav_inv w targets to_visit seen reachable_entries edges"
  shows "trav_inv w targets [] (set (fst (traverse_loop it w to_visit seen reachable_entries edges)))
           (fst (traverse_loop it w to_visit seen reachable_entries edges))
           (snd (traverse_loop it w to_visit seen reachable_entries edges))"
  using assms
proof (induction it w to_visit seen reachable_entries edges rule: traverse_loop.induct)
  case (1 it w seen reachable_entries edges)
  then show ?case by (auto simp: trav_inv_def)
next
  case (2 it w visiting to_visit seen reachable_entries edges)
  let ?deps = "dependencies it w visiting"
  let ?tv = "rev (filter (\<lambda>d. d \<notin> insert visiting seen) ?deps) @ to_visit"
  let ?e = "if ?deps = [] then edges else dict_set visiting (dict_get edges visiting @ ?deps) edges"
  have eq: "(?e, ?tv) = visit_deps visiting (insert visiting seen) ?deps (edges, to_visit)"
    by (simp only: visit_deps_eq)
  from "2.IH" [OF eq "2.prems"(1) trav_inv_step [OF "2.prems"]]
  show ?case by (simp only: traverse_loop.simps eq [symmetric] prod.case)
qed

lemma trav_inv_initial: "trav_inv w targets (rev targets) {} [] []"
  by (auto simp: trav_inv_def reachable_def)

lemma trav_inv_final:
  assumes "trav_inv w targets [] seen all_nodes edges"
  shows "set all_nodes = reachable w targets"
proof -
  from assms [unfolded trav_inv_def] have seen: "seen = set all_nodes"
    and closed: "\<And>n. n \<in> seen \<Longrightarrow> out_edges w n \<subseteq> seen"
    and tg: "set targets \<subseteq> seen" and sub: "seen \<subseteq> reachable w targets"
    by auto
  have "n \<in> seen" if "(t, n) \<in> (dep_graph w)\<^sup>*" and "t \<in> seen" for t n
    using that
  proof (induction rule: rtrancl_induct)
    case base
    then show ?case .
  next
    case (step y z)
    then have "z \<in> out_edges w y" by (simp add: dep_graph_def)
    with closed [of y] step show ?case by auto
  qed
  with tg have "reachable w targets \<subseteq> seen" by (auto simp: reachable_def)
  with sub seen show ?thesis by auto
qed

lemma traverse_node_graph_spec:
  assumes "set_iter_ok it"
  shows "set (fst (traverse_node_graph it w targets)) = reachable w targets"
    and "distinct (map fst (snd (traverse_node_graph it w targets)))"
    and "set (dict_get (snd (traverse_node_graph it w targets)) n) =
           (if n \<in> reachable w targets then out_edges w n else {})"
proof -
  let ?r = "traverse_node_graph it w targets"
  from traverse_loop_inv [OF assms trav_inv_initial, of w targets]
  have inv: "trav_inv w targets [] (set (fst ?r)) (fst ?r) (snd ?r)"
    by (simp add: traverse_node_graph_def)
  from trav_inv_final [OF inv] show r: "set (fst ?r) = reachable w targets" .
  from inv show "distinct (map fst (snd ?r))" by (simp add: trav_inv_def)
  from inv r show "set (dict_get (snd ?r) n) =
           (if n \<in> reachable w targets then out_edges w n else {})"
    by (simp add: trav_inv_def)
qed

lemma dep_rel_traverse:
  "set_iter_ok it \<Longrightarrow> dep_rel (snd (traverse_node_graph it w targets)) = reachable_graph w targets"
  by (auto simp: dep_rel_def reachable_graph_def traverse_node_graph_spec(3) split: if_splits)

lemma Field_reachable_graph: "Field (reachable_graph w targets) \<subseteq> reachable w targets"
  by (auto simp: reachable_graph_def Field_def intro: reachable_step)

text \<open>
  C5: the traversal collects exactly the nodes reachable from the targets, and for each
  of them the collection \<open>edges[n]\<close> holds, as a set, the node's own \<open>depends\<close>, and when
  the node has a builder also the builder's \<open>depends\<close> and the \<open>depends\<close> of every node
  in the builder's \<open>builds\<close>.
\<close>

theorem traverse_edges_union:
  assumes "set_iter_ok it"
  shows "set (fst (traverse_node_graph it w targets)) = reachable w targets \<and>
    (\<forall>n\<in>reachable w targets.
       set (dict_get (snd (traverse_node_graph it w targets)) n) =
         set (depends w n) \<union>
         (case builder w n of
            None \<Rightarrow> {}
          | Some b \<Rightarrow> set (b_depends w b) \<union> (\<Union>s\<in>set (builds w b). set (depends w s))))"
  using traverse_node_graph_spec(1,3) [OF assms, of w targets]
  by (simp add: out_edges_def)

theorem traverse_edges_union_witness:
  "set_iter_ok (id :: nd list \<Rightarrow> nd list) \<and>
   NA \<in> reachable world_siblings [NA] \<and>
   set (fst (traverse_node_graph id world_siblings [NA])) = reachable world_siblings [NA] \<and>
   set (dict_get (snd (traverse_node_graph id world_siblings [NA])) NA) = {NB, ND}"
proof -
  have h: "set_iter_ok (id :: nd list \<Rightarrow> nd list)" by (simp add: set_iter_ok_def)
  have r: "NA \<in> reachable world_siblings [NA]" by (simp add: reachable_def)
  from traverse_edges_union [OF h, of world_siblings "[NA]"] r
  have "set (dict_get (snd (traverse_node_graph id world_siblings [NA])) NA) =
         set (depends world_siblings NA) \<union>
         (case builder world_siblings NA of
            None \<Rightarrow> {}
          | Some b \<Rightarrow> set (b_depends world_siblings b) \<union>
              (\<Union>s\<in>set (builds world_siblings b). set (depends world_siblings s)))"
    by blast
  then have "set (dict_get (snd (traverse_node_graph id world_siblings [NA])) NA) = {NB, ND}"
    by (auto simp: world_siblings_def)
  with h r traverse_edges_union [OF h, of world_siblings "[NA]"] show ?thesis by blast
qed







section \<open>Dirty propagation\<close>

lemma deps_before_iff:
  "deps_before edges pre ns =
     (\<forall>a n b. ns = a @ n # b \<longrightarrow> set (dict_get edges n) \<subseteq> set (pre @ a))"
proof (induction ns arbitrary: pre)
  case Nil
  show ?case by simp
next
  case (Cons x ns)
  show ?case
  proof
    assume l: "deps_before edges pre (x # ns)"
    then have hd: "set (dict_get edges x) \<subseteq> set pre"
      and tl: "\<forall>a n b. ns = a @ n # b \<longrightarrow> set (dict_get edges n) \<subseteq> set ((pre @ [x]) @ a)"
      by (auto simp: Cons.IH list_all_iff)
    show "\<forall>a n b. x # ns = a @ n # b \<longrightarrow> set (dict_get edges n) \<subseteq> set (pre @ a)"
    proof (intro allI impI)
      fix a n b assume eq: "x # ns = a @ n # b"
      show "set (dict_get edges n) \<subseteq> set (pre @ a)"
      proof (cases a)
        case Nil
        with eq hd show ?thesis by simp
      next
        case (Cons y a')
        with eq have "ns = a' @ n # b" and "y = x" by auto
        with tl Cons show ?thesis by auto
      qed
    qed
  next
    assume r: "\<forall>a n b. x # ns = a @ n # b \<longrightarrow> set (dict_get edges n) \<subseteq> set (pre @ a)"
    from r [rule_format, of "[]" x ns] have hd: "set (dict_get edges x) \<subseteq> set pre" by simp
    have "set (dict_get edges n) \<subseteq> set ((pre @ [x]) @ a)" if "ns = a @ n # b" for a n b
      using r [rule_format, of "x # a" n b] that by simp
    with hd show "deps_before edges pre (x # ns)"
      by (auto simp: Cons.IH list_all_iff)
  qed
qed

lemma topo_ordered_iff:
  "topo_ordered edges ns = (\<forall>a n b. ns = a @ n # b \<longrightarrow> set (dict_get edges n) \<subseteq> set a)"
  by (simp add: topo_ordered_def deps_before_iff)



lemma upward_pass_append:
  "upward_pass ie edges (xs @ ys) tb = upward_pass ie edges ys (upward_pass ie edges xs tb)"
  by (induction xs arbitrary: tb) auto







text \<open>
  The second loop can add a node whose other dependents stay out: with \<open>NA\<close> and \<open>NB\<close>
  both depending on the non-Entry node \<open>ND\<close> and only \<open>NA\<close> out of date, the result
  holds \<open>ND\<close> but not its dependent \<open>NB\<close>.
\<close>

lemma get_to_build_prepared_fileset: "get_to_build world_fileset prepared_fileset = {NA, ND}"
  by (auto simp: get_to_build_def world_fileset_def prepared_fileset_def)


section \<open>The registration invariant\<close>



















section \<open>The metadata store and \<open>prepare_build\<close>\<close>

subsection \<open>The metadata store\<close>

lemma execution_set_metadata_upsert:
  assumes "json_loads rt (json_dumps rt metadata) = metadata"
  shows "\<exists>db'. execution_set_metadata rt path metadata db = Inr db' \<and>
           execution_get_metadata rt path db' = Some metadata \<and>
           (\<forall>p. p \<noteq> path \<longrightarrow> db' p = db p)"
  using assms
  by (simp add: execution_set_metadata_def execution_get_metadata_def insert_or_def
      conflict_resolution_of_def)

text \<open>
  C7 fails on the \<open>_set_metadata\<close> of \<open>minicons/__init__.py\<close>: \<open>UPDATE\<close> is no conflict
  resolution, so for every path, signature and table the statement is rejected and
  nothing is stored.
\<close>

theorem init_set_metadata_raises:
  "init_set_metadata rt path metadata db = Inl OperationalError"
  by (simp add: init_set_metadata_def insert_or_def conflict_resolution_of_def)

subsection \<open>Targets that are not registered\<close>

text \<open>
  C8 fails on \<open>prepare_build\<close> of \<open>execution.py\<close>: a string target that is no alias and
  whose path has no entry raises the \<open>KeyError\<close> of the dictionary lookup.
\<close>

theorem prepare_build_unknown_target:
  assumes "ex_aliases ex target = None" and "ex_entries ex (ex_root_joinpath ex target) = None"
  shows "prepare_build it w rt ex s (ArgStr target) = Some (Inl KeyError) \<and>
         prepare_build it w rt ex s (ArgIterable [ArgStr target]) = Some (Inl KeyError)"
  using assms by (simp add: prepare_build_def)

lemma init_target_not_found:
  assumes "ex_entries ex (ex_root_joinpath ex target) = None"
  shows "\<exists>msg. init_target_entry ex target = Inl (DependencyError msg)"
  using assms by (simp add: init_target_entry_def)

theorem prepare_build_unknown_target_witness:
  "ex_aliases empty_execution ''missing'' = None \<and>
   ex_entries empty_execution (ex_root_joinpath empty_execution ''missing'') = None \<and>
   prepare_build id world_plain plain_runtime empty_execution empty_state (ArgStr ''missing'')
     = Some (Inl KeyError) \<and>
   prepare_build id world_plain plain_runtime empty_execution empty_state
     (ArgIterable [ArgStr ''missing'']) = Some (Inl KeyError)"
proof -
  have h1: "ex_aliases empty_execution ''missing'' = None"
    and h2: "ex_entries empty_execution (ex_root_joinpath empty_execution ''missing'') = None"
    by (simp_all add: empty_execution_def)
  from prepare_build_unknown_target [OF h1 h2] h1 h2 show ?thesis by blast
qed

subsection \<open>Entries that are missing on disk\<close>


lemma gather_metadata_built_missing:
  assumes "\<not> path_exists rt fs entry" and "builder w entry \<noteq> None"
  shows "gather_metadata w rt fs [entry] metadata = Inl FileNotFoundError"
  using assms by (simp add: file_get_metadata_def)




section \<open>Cycle detection\<close>

text \<open>
  In a list where every node comes after all its dependencies, the nodes reachable
  from a member are members, and no member lies on a cycle.
\<close>

lemma topo_list_closed:
  assumes "\<forall>xs n ys. s = xs @ n # ys \<longrightarrow> E `` {n} \<subseteq> set xs"
  shows "\<forall>n\<in>set s. (\<forall>c. (n, c) \<in> E\<^sup>+ \<longrightarrow> c \<in> set s) \<and> (n, n) \<notin> E\<^sup>+"
  using assms
proof (induction s rule: rev_induct)
  case Nil
  show ?case by simp
next
  case (snoc x s)
  from snoc.prems have pre: "\<forall>xs n ys. s = xs @ n # ys \<longrightarrow> E `` {n} \<subseteq> set xs"
    by auto
  from snoc.prems have last: "E `` {x} \<subseteq> set s" by auto
  note IH = snoc.IH [OF pre]
  have reach_x: "c \<in> set s" if "(x, c) \<in> E\<^sup>+" for c
  proof -
    from that obtain d where xd: "(x, d) \<in> E" and dc: "(d, c) \<in> E\<^sup>*"
      by (auto dest: tranclD)
    from xd last have d: "d \<in> set s" by auto
    from dc show ?thesis
    proof (cases rule: rtranclE)
      case base
      with d show ?thesis by simp
    next
      case (step y)
      then have "(d, c) \<in> E\<^sup>+" by (auto intro: rtrancl_into_trancl1)
      with IH d show ?thesis by blast
    qed
  qed
  show ?case
  proof (intro ballI)
    fix n assume n: "n \<in> set (s @ [x])"
    show "(\<forall>c. (n, c) \<in> E\<^sup>+ \<longrightarrow> c \<in> set (s @ [x])) \<and> (n, n) \<notin> E\<^sup>+"
    proof (cases "n \<in> set s")
      case True
      with IH show ?thesis by auto
    next
      case False
      with n have nx: "n = x" by simp
      have "(x, x) \<notin> E\<^sup>+" using reach_x [of x] False nx by auto
      with reach_x nx show ?thesis by auto
    qed
  qed
qed

lemma sort_loop_cyclic_remaining:
  assumes inv: "sort_inv nodes edges0 edges' R' sorted' []"
    and edge: "(n, d) \<in> dep_rel edges0"
    and reach: "(d, c) \<in> (dep_rel edges0)\<^sup>*" and cyc: "(c, c) \<in> (dep_rel edges0)\<^sup>+"
  shows "(n, d) \<in> dep_rel edges'"
proof -
  let ?E = "dep_rel edges0"
  from inv have rel: "dep_rel edges' = {(n, d). (n, d) \<in> ?E \<and> d \<notin> set sorted'}"
    and topo: "\<forall>xs n ys. sorted' = xs @ n # ys \<longrightarrow> set (dict_get edges0 n) \<subseteq> set xs"
    by (simp_all add: sort_inv_def)
  have img: "?E `` {k} = set (dict_get edges0 k)" for k
    by (auto simp: dep_rel_def)
  from topo have "\<forall>xs n ys. sorted' = xs @ n # ys \<longrightarrow> ?E `` {n} \<subseteq> set xs"
    by (simp add: img)
  from topo_list_closed [OF this]
  have closed: "\<And>k c. k \<in> set sorted' \<Longrightarrow> (k, c) \<in> ?E\<^sup>+ \<Longrightarrow> c \<in> set sorted'"
    and nocyc: "\<And>k. k \<in> set sorted' \<Longrightarrow> (k, k) \<notin> ?E\<^sup>+"
    by blast+
  have "d \<notin> set sorted'"
  proof
    assume d: "d \<in> set sorted'"
    from reach have "c \<in> set sorted'"
    proof (cases rule: rtranclE)
      case base
      with d show ?thesis by simp
    next
      case (step y)
      then have "(d, c) \<in> ?E\<^sup>+" by (auto intro: rtrancl_into_trancl1)
      with closed d show ?thesis by blast
    qed
    with nocyc cyc show False by blast
  qed
  with edge rel show ?thesis by simp
qed

lemma sort_loop_remaining_leads_to_cycle:
  assumes inv: "sort_inv nodes edges0 edges' R' sorted' []"
    and field: "Field (dep_rel edges0) \<subseteq> set nodes"
    and edge: "(n, d) \<in> dep_rel edges'"
  shows "\<exists>c. (d, c) \<in> (dep_rel edges0)\<^sup>* \<and> (c, c) \<in> (dep_rel edges0)\<^sup>+"
proof -
  let ?E' = "dep_rel edges'"
  let ?X = "?E'\<^sup>* `` {d}"
  let ?EX = "{(a, b). (a, b) \<in> ?E' \<and> a \<in> ?X}"
  from inv have rel: "?E' = {(n, d). (n, d) \<in> dep_rel edges0 \<and> d \<notin> set sorted'}"
    and emitted: "set sorted' = {n. n \<in> set nodes \<and> dict_get edges' n = []}"
    by (simp_all add: sort_inv_def)
  have sub: "?E' \<subseteq> dep_rel edges0" using rel by auto
  have target: "b \<notin> set sorted' \<and> b \<in> set nodes" if "(a, b) \<in> ?E'" for a b
    using that rel field by (auto simp: Field_def)
  have X_open: "a \<notin> set sorted' \<and> a \<in> set nodes" if "a \<in> ?X" for a
  proof -
    from that have "(d, a) \<in> ?E'\<^sup>*" by simp
    then show ?thesis
    proof (cases rule: rtranclE)
      case base
      with target [OF edge] show ?thesis by simp
    next
      case (step y)
      with target show ?thesis by blast
    qed
  qed
  have succ: "\<exists>b. (a, b) \<in> ?EX \<and> b \<in> ?X" if "a \<in> ?X" for a
  proof -
    from X_open [OF that] emitted have "dict_get edges' a \<noteq> []" by auto
    then obtain b where ab: "(a, b) \<in> ?E'"
      by (cases "dict_get edges' a") (auto simp: dep_rel_def)
    from that have "(d, a) \<in> ?E'\<^sup>*" by simp
    from this ab have "(d, b) \<in> ?E'\<^sup>*" by (rule rtrancl_into_rtrancl)
    with ab that show ?thesis by auto
  qed
  have "\<not> acyclic ?EX"
  proof
    assume acyc: "acyclic ?EX"
    have "?EX \<subseteq> set nodes \<times> set nodes" using X_open target by auto
    then have "finite ?EX" by (rule finite_subset) simp
    from this acyc have wf: "wf (?EX\<inverse>)" by (rule finite_acyclic_wf_converse)
    have "d \<in> ?X" by simp
    from wfE_min [OF wf this] obtain z where z: "z \<in> ?X"
      and zmin: "\<And>y. (y, z) \<in> ?EX\<inverse> \<Longrightarrow> y \<notin> ?X"
      by blast
    from succ [OF z] obtain b where "(z, b) \<in> ?EX" and "b \<in> ?X" by blast
    with zmin [of b] show False by auto
  qed
  then obtain c where cc: "(c, c) \<in> ?EX\<^sup>+" by (auto simp: acyclic_def)
  have "?EX \<subseteq> dep_rel edges0" using sub by auto
  from trancl_mono [OF cc this] have c1: "(c, c) \<in> (dep_rel edges0)\<^sup>+" .
  from cc have "c \<in> ?X" by (auto dest: tranclD)
  then have "(d, c) \<in> ?E'\<^sup>*" by simp
  with sub have "(d, c) \<in> (dep_rel edges0)\<^sup>*" by (auto intro: rtrancl_mono [THEN subsetD])
  with c1 show ?thesis by blast
qed

lemma set_cycle_lines:
  assumes "set_iter_ok it" and "distinct (map fst edges)" and "\<And>k. distinct (dict_get edges k)"
  shows "set (cycle_lines it str edges) = {edge_line str n d | n d. (n, d) \<in> dep_rel edges}"
proof (intro set_eqI iffI)
  fix l assume "l \<in> set (cycle_lines it str edges)"
  then obtain n deps d where in_e: "(n, deps) \<in> set edges" and d: "d \<in> set (it deps)"
    and l: "l = edge_line str n d"
    by (auto simp: cycle_lines_def)
  from dict_get_in_set [OF assms(2) in_e] have g: "dict_get edges n = deps" .
  with assms(3) [of n] have "distinct deps" by simp
  with set_iter_okD [OF assms(1)] d g have "(n, d) \<in> dep_rel edges"
    by (auto simp: dep_rel_def)
  with l show "l \<in> {edge_line str n d | n d. (n, d) \<in> dep_rel edges}" by blast
next
  fix l assume "l \<in> {edge_line str n d | n d. (n, d) \<in> dep_rel edges}"
  then obtain n d where l: "l = edge_line str n d" and nd: "d \<in> set (dict_get edges n)"
    by (auto simp: dep_rel_def)
  then have ne: "dict_get edges n \<noteq> []" by auto
  from dict_get_nonempty_key [OF ne] have in_e: "(n, dict_get edges n) \<in> set edges" .
  from set_iter_okD [OF assms(1) assms(3) [of n]] nd
  have "d \<in> set (it (dict_get edges n))" by simp
  with in_e ne l show "l \<in> set (cycle_lines it str edges)"
    by (force simp: cycle_lines_def)
qed

lemma sort_dag_cyclic:
  assumes it: "set_iter_ok it" and keys: "distinct (map fst edges_orig)"
    and field: "Field (dep_rel edges_orig) \<subseteq> set nodes"
    and cyc: "\<not> acyclic (dep_rel edges_orig)"
  shows "\<exists>remaining.
     sort_dag it str nodes edges_orig = Inl (DependencyError (cycle_message it str remaining)) \<and>
     set (cycle_lines it str remaining) =
       {edge_line str n d | n d. (n, d) \<in> dep_rel edges_orig \<and>
          (\<exists>c. (d, c) \<in> (dep_rel edges_orig)\<^sup>* \<and> (c, c) \<in> (dep_rel edges_orig)\<^sup>+)}"
proof -
  let ?e0 = "map (\<lambda>(e, deps). (e, pyset deps)) edges_orig"
  let ?E = "dep_rel edges_orig"
  from sort_loop_final [OF it keys field] obtain edges' R' sorted' where
    run: "sort_loop it ?e0 (build_reverse it ?e0 (\<lambda>k. [])) []
      (rev (filter (\<lambda>n. dict_get ?e0 n = []) nodes)) = Inr (edges', sorted')"
    and inv: "sort_inv nodes ?e0 edges' R' sorted' []"
    by blast
  have E0: "dep_rel ?e0 = ?E" by (rule dep_rel_map_pyset)
  have f0: "Field (dep_rel ?e0) \<subseteq> set nodes" using field by (simp add: E0)
  have remaining: "(n, d) \<in> dep_rel edges'"
    if "(n, d) \<in> ?E" and "(d, c) \<in> ?E\<^sup>*" and "(c, c) \<in> ?E\<^sup>+" for n d c
    using sort_loop_cyclic_remaining [OF inv] that by (simp add: E0)
  from inv have sub: "dep_rel edges' \<subseteq> ?E" by (auto simp: sort_inv_def E0)
  have exact: "dep_rel edges' =
      {(n, d). (n, d) \<in> ?E \<and> (\<exists>c. (d, c) \<in> ?E\<^sup>* \<and> (c, c) \<in> ?E\<^sup>+)}"
    using remaining sub sort_loop_remaining_leads_to_cycle [OF inv f0]
    by (auto simp: E0)
  from inv have keys': "map fst edges' = map fst ?e0" and cons: "consistent edges' R'"
    by (simp_all add: sort_inv_def)
  have dk: "distinct (map fst edges')"
    using keys' keys by (simp add: fst_comp_pyset)
  from cons have dd: "\<And>k. distinct (dict_get edges' k)" by (simp add: consistent_def)
  from cyc obtain c where cc: "(c, c) \<in> ?E\<^sup>+" by (auto simp: acyclic_def)
  then obtain p where "(p, c) \<in> ?E" by (auto elim: tranclE)
  from remaining [OF this rtrancl.rtrancl_refl cc] have "dep_rel edges' \<noteq> {}" by auto
  with list_ex_nonempty_dep_rel [OF dk] have "list_ex (\<lambda>(n, deps). deps \<noteq> []) edges'" by simp
  with run have res: "sort_dag it str nodes edges_orig =
      Inl (DependencyError (cycle_message it str edges'))"
    by (simp add: sort_dag_def Let_def)
  have "set (cycle_lines it str edges') =
       {edge_line str n d | n d. (n, d) \<in> ?E \<and> (\<exists>c. (d, c) \<in> ?E\<^sup>* \<and> (c, c) \<in> ?E\<^sup>+)}"
    unfolding set_cycle_lines [OF it dk dd] exact by auto
  with res show ?thesis by blast
qed





lemma prepare_build_world_cycle:
  "prepare_build id world_cycle plain_runtime empty_execution empty_state (ArgNode NA) =
     Some (Inl (DependencyError
       (''Dependency graph has cycles:'' @ newline @ ''X '' @ arrow @ '' Y'' @ newline @
        ''Y '' @ arrow @ '' X'')))"
  by (simp add: prepare_build_def traverse_node_graph_def dependencies_def sort_dag_def
      world_cycle_def pyset_def set_add_def cycle_message_def cycle_lines_def edge_line_def Let_def)

section \<open>The serial scheduler\<close>

subsection \<open>\<open>prepare_build\<close> returns\<close>

lemma finite_dep_rel: "finite (dep_rel edges)"
proof -
  have "dep_rel edges \<subseteq> (\<Union>p\<in>set edges. {fst p} \<times> set (snd p))"
  proof
    fix x assume "x \<in> dep_rel edges"
    then obtain n d where x: "x = (n, d)" and d: "d \<in> set (dict_get edges n)"
      by (auto simp: dep_rel_def)
    then have "dict_get edges n \<noteq> []" by auto
    from dict_get_nonempty_key [OF this] d x
    show "x \<in> (\<Union>p\<in>set edges. {fst p} \<times> set (snd p))" by force
  qed
  then show ?thesis by (rule finite_subset) simp
qed

lemma ancestors_loop_returns:
  assumes "acyclic (dep_rel edges)"
  shows "\<exists>r. ancestors_loop is_ent edges to_visit found = Some r"
proof -
  let ?r = "(dep_rel edges)\<inverse>"
  have "wf ?r" using finite_dep_rel assms by (rule finite_acyclic_wf_converse)
  then have wf: "wf (mult1 ?r)" by (rule wf_mult1)
  have "\<forall>to_visit found. mset to_visit = M \<longrightarrow>
          (\<exists>r. ancestors_loop is_ent edges to_visit found = Some r)" for M
    using wf
  proof (induction M rule: wf_induct_rule)
    case (less M)
    show ?case
    proof (intro allI impI)
      fix to_visit :: "'a list" and found
      assume M: "mset to_visit = M"
      show "\<exists>r. ancestors_loop is_ent edges to_visit found = Some r"
      proof (cases to_visit)
        case Nil
        then show ?thesis by (simp add: ancestors_loop.simps)
      next
        case (Cons v rest)
        let ?next = "rev (dict_get edges v) @ rest"
        have "(mset ?next, M) \<in> mult1 ?r"
          unfolding mult1_def
        proof (clarify, intro exI conjI)
          show "M = add_mset v (mset rest)" using M Cons by simp
          show "mset ?next = mset rest + mset (dict_get edges v)" by simp
          show "\<forall>b. b \<in># mset (dict_get edges v) \<longrightarrow> (b, v) \<in> ?r"
            by (simp add: dep_rel_def)
        qed
        from less.IH [OF this] obtain r where
          "ancestors_loop is_ent edges ?next (if is_ent v then set_add v found else found) = Some r"
          by blast
        with Cons show ?thesis by (subst ancestors_loop.simps) simp
      qed
    qed
  qed
  then show ?thesis by blast
qed

lemma all_dependencies_loop_returns:
  assumes "acyclic (dep_rel edges)"
  shows "\<exists>r. all_dependencies_loop is_ent edges nodes acc = Some r"
proof (induction nodes arbitrary: acc)
  case Nil
  show ?case by simp
next
  case (Cons n nodes)
  from ancestors_loop_returns [OF assms, of is_ent "rev (dict_get edges n)" "[]"]
  obtain found where "ancestors_loop is_ent edges (rev (dict_get edges n)) [] = Some found"
    by blast
  with Cons.IH [of "dict_set n found acc"] show ?case by simp
qed

lemma sort_dag_Inr_acyclic:
  assumes "set_iter_ok it" and "distinct (map fst edges_orig)"
    and "Field (dep_rel edges_orig) \<subseteq> set nodes"
    and "sort_dag it str nodes edges_orig = Inr ordered"
  shows "acyclic (dep_rel edges_orig)"
proof (rule ccontr)
  assume "\<not> acyclic (dep_rel edges_orig)"
  from sort_dag_cyclic [OF assms(1-3) this, of str] assms(4) show False by auto
qed

lemma prepare_build_returns:
  assumes "set_iter_ok it"
  shows "\<exists>r. prepare_build it w rt ex s targets = Some r"
proof (cases "args_to_nodes ex targets")
  case (Inl e)
  then show ?thesis by (simp add: prepare_build_def)
next
  case (Inr target_nodes)
  let ?T = "traverse_node_graph it w target_nodes"
  obtain all_nodes edges where T: "?T = (all_nodes, edges)" by (cases ?T)
  note spec = traverse_node_graph_spec [OF assms, of w target_nodes]
  show ?thesis
  proof (cases "sort_dag it (node_str w) all_nodes edges")
    case (Inl e)
    with Inr T show ?thesis by (simp add: prepare_build_def)
  next
    case sorted: (Inr ordered_nodes)
    have f: "Field (dep_rel edges) \<subseteq> set all_nodes"
      using Field_reachable_graph [of w target_nodes] dep_rel_traverse [OF assms, of w target_nodes]
        spec(1) T by simp
    have k: "distinct (map fst edges)" using spec(2) T by simp
    from sort_dag_Inr_acyclic [OF assms k f sorted] have "acyclic (dep_rel edges)" .
    from all_dependencies_loop_returns [OF this, of "is_entry w" all_nodes "[]"]
    obtain deps where "all_dependencies_loop (is_entry w) edges all_nodes [] = Some deps"
      by blast
    with Inr T sorted show ?thesis
      by (auto simp: prepare_build_def split: sum.splits prod.splits)
  qed
qed

subsection \<open>The serial scheduler calls a builder at most once\<close>

lemma call_builder_invoked:
  "rs_invoked (snd (call_builder w rt dry_run b s)) = rs_invoked s @ [b]"
  by (simp add: call_builder_def Let_def split: sum.splits option.splits)

lemma update_builder_metadata_invoked:
  "rs_invoked (snd (snd (update_builder_metadata it w rt deps entries (cache, s)))) = rs_invoked s"
  by (induction it w rt deps entries "(cache, s)" arbitrary: cache s
      rule: update_builder_metadata.induct)
    (auto split: option.splits sum.splits)

lemma serial_loop_invoked:
  assumes "\<forall>n b. builder w n = Some b \<longrightarrow> n \<in> set (builds w b)"
  shows "\<exists>new. rs_invoked (snd (serial_loop it w rt dry_run deps to_build nodes (built, cache, s)))
             = rs_invoked s @ new \<and>
           distinct new \<and> (\<forall>b\<in>set new. \<not> set (builds w b) \<subseteq> built)"
proof (induction nodes arbitrary: built cache s)
  case Nil
  show ?case by simp
next
  case (Cons node nodes)
  show ?case
  proof (cases "node \<in> to_build \<and> node \<notin> built \<and> builder w node \<noteq> None")
    case False
    with Cons.IH [of built cache s] show ?thesis by (auto split: option.splits)
  next
    case True
    then obtain b where b: "builder w node = Some b" and nb: "node \<notin> built"
      and tb: "node \<in> to_build"
      by auto
    with assms have "node \<in> set (builds w b)" by blast
    with nb have fresh: "\<not> set (builds w b) \<subseteq> built" by auto
    obtain err s1 where cb: "call_builder w rt dry_run b s = (err, s1)"
      by (cases "call_builder w rt dry_run b s")
    with call_builder_invoked [of w rt dry_run b s]
    have inv1: "rs_invoked s1 = rs_invoked s @ [b]" by simp
    let ?built = "built \<union> set (builds w b)"
    have step: "\<exists>new. rs_invoked (snd (serial_loop it w rt dry_run deps to_build nodes
          (?built, cache', s'))) = rs_invoked s @ new \<and>
        distinct new \<and> (\<forall>x\<in>set new. \<not> set (builds w x) \<subseteq> built)"
      if "rs_invoked s' = rs_invoked s @ [b]" for cache' s'
    proof -
      from Cons.IH [of ?built cache' s'] obtain new where
        n1: "rs_invoked (snd (serial_loop it w rt dry_run deps to_build nodes
              (?built, cache', s'))) = rs_invoked s' @ new"
        and n2: "distinct new" and n3: "\<forall>x\<in>set new. \<not> set (builds w x) \<subseteq> ?built"
        by blast
      from n3 have "b \<notin> set new" by auto
      moreover from n3 have "\<forall>x\<in>set new. \<not> set (builds w x) \<subseteq> built" by auto
      ultimately show ?thesis using n1 n2 that fresh
        by (intro exI [of _ "b # new"]) simp
    qed
    show ?thesis
    proof (cases err)
      case (Some e)
      with cb b tb nb inv1 fresh show ?thesis
        by (intro exI [of _ "[b]"]) simp
    next
      case None
      show ?thesis
      proof (cases dry_run)
        case True
        with step [OF inv1, of cache] cb b tb nb None show ?thesis
          by (simp add: Let_def)
      next
        case False
        obtain err2 cache2 s2 where
          up: "update_builder_metadata it w rt deps (builds w b) (cache, s1) = (err2, cache2, s2)"
          by (cases "update_builder_metadata it w rt deps (builds w b) (cache, s1)")
        with update_builder_metadata_invoked [of it w rt deps "builds w b" cache s1] inv1
        have inv2: "rs_invoked s2 = rs_invoked s @ [b]" by simp
        show ?thesis
        proof (cases err2)
          case (Some e)
          with up cb b tb nb None False inv2 fresh show ?thesis
            by (intro exI [of _ "[b]"]) simp
        next
          case none2: None
          with step [OF inv2, of cache2] up cb b tb nb None False show ?thesis
            by simp
        qed
      qed
    qed
  qed
qed

text \<open>
  C6: with every node that has a builder listed in that builder's \<open>builds\<close>, a
  \<open>build_targets\<close> call that takes the serial scheduler returns, and the builders it has
  called \<open>_call_builder\<close> with are pairwise different: no builder is invoked twice,
  however many of the nodes it builds are in \<open>to_build\<close>.
\<close>

theorem build_targets_serial_once:
  assumes "set_iter_ok it"
    and "builders_own_outputs w"
    and "parallel \<le> 1 \<or> dry_run"
  shows "\<exists>err s' new.
     build_targets it w rt ex targets prepared_build dry_run parallel s = Some (err, s') \<and>
     rs_invoked s' = rs_invoked s @ new \<and> distinct new"
proof -
  have run: "\<exists>err s' new. run_prepared it w rt dry_run parallel pb s = Some (err, s') \<and>
      rs_invoked s' = rs_invoked s @ new \<and> distinct new" for pb
  proof (cases "get_to_build w pb = {}")
    case True
    then show ?thesis by (simp add: run_prepared_def)
  next
    case False
    let ?res = "serial_loop it w rt dry_run (pb_entry_dependencies pb) (get_to_build w pb)
        (pb_ordered_nodes pb) ({}, [], s)"
    from serial_loop_invoked [OF assms(2) [unfolded builders_own_outputs_def],
        of it rt dry_run "pb_entry_dependencies pb"
        "get_to_build w pb" "pb_ordered_nodes pb" "{}" "[]" s]
    obtain new where "rs_invoked (snd ?res) = rs_invoked s @ new" and "distinct new"
      by blast
    moreover have "run_prepared it w rt dry_run parallel pb s = Some (fst ?res, snd ?res)"
      using False assms(3) by (auto simp: run_prepared_def Let_def)
    ultimately show ?thesis by blast
  qed
  show ?thesis
  proof (cases prepared_build)
    case (Some pb)
    with run [of pb] show ?thesis
      by (cases targets) (auto simp: build_targets_def)
  next
    case None
    show ?thesis
    proof (cases targets)
      case none: None
      with None show ?thesis by (simp add: build_targets_def)
    next
      case (Some t)
      from prepare_build_returns [OF assms(1), of w rt ex s t]
      obtain r where r: "prepare_build it w rt ex s t = Some r" by blast
      show ?thesis
      proof (cases r)
        case (Inl e)
        with r None Some show ?thesis by (simp add: build_targets_def)
      next
        case (Inr pb)
        with r None Some run [of pb] show ?thesis by (simp add: build_targets_def)
      qed
    qed
  qed
qed

lemma build_two_outputs:
  "build_targets id world_two_outputs writing_runtime empty_execution None
     (Some prepared_two_outputs) False 1 empty_state =
   Some (None, \<lparr> rs_fs = {NA, NC}, rs_db = ((\<lambda>p. None)(''/a'' := Some [], ''/c'' := Some [])),
            rs_invoked = [B1] \<rparr>)"
  by (simp add: build_targets_def run_prepared_def get_to_build_def world_two_outputs_def
      prepared_two_outputs_def writing_runtime_def plain_runtime_def empty_state_def
      call_builder_def execution_set_metadata_def insert_or_def conflict_resolution_of_def
      Let_def insert_commute)

theorem build_targets_serial_once_witness:
  "set_iter_ok (id :: nd list \<Rightarrow> nd list) \<and> builders_own_outputs world_two_outputs \<and>
   ((1::nat) \<le> 1 \<or> False) \<and>
   (\<exists>err s' new.
      build_targets id world_two_outputs writing_runtime empty_execution None
        (Some prepared_two_outputs) False 1 empty_state = Some (err, s') \<and>
      rs_invoked s' = rs_invoked empty_state @ new \<and> distinct new) \<and>
   get_to_build world_two_outputs prepared_two_outputs = {NA, NC}"
proof -
  have h1: "set_iter_ok (id :: nd list \<Rightarrow> nd list)" by (simp add: set_iter_ok_def)
  have h2: "builders_own_outputs world_two_outputs"
    by (simp add: builders_own_outputs_def world_two_outputs_def)
  have h3: "(1::nat) \<le> 1 \<or> False" by simp
  have tb: "get_to_build world_two_outputs prepared_two_outputs = {NA, NC}"
    by (auto simp: get_to_build_def world_two_outputs_def prepared_two_outputs_def)
  from build_targets_serial_once [OF h1 h2 h3, of writing_runtime empty_execution None
      "Some prepared_two_outputs" empty_state] h1 h2 h3 tb
  show ?thesis by blast
qed

subsection \<open>What \<open>prepare_build\<close> hands to \<open>get_to_build\<close>\<close>

lemma set_set_add [simp]: "set (set_add x s) = insert x (set s)"
  by (auto simp: set_add_def)

lemma find_outdated_subset:
  "find_outdated it w rt s metadata all_dependencies nodes (outdated, changed) = Inr (outdated', changed')
     \<Longrightarrow> set outdated' \<subseteq> set outdated \<union> set nodes"
proof (induction nodes arbitrary: outdated changed)
  case Nil
  then show ?case by simp
next
  case (Cons node nodes)
  from Cons.prems obtain o1 c1 where
    rest: "find_outdated it w rt s metadata all_dependencies nodes (o1, c1) = Inr (outdated', changed')"
    and o1: "set o1 \<subseteq> insert node (set outdated)"
    by (auto simp: Let_def split: if_splits option.splits sum.splits)
  from Cons.IH [OF rest] o1 show ?case by auto
qed

lemma topo_ordered_of_index:
  assumes "\<forall>i<length s. \<forall>d\<in>set (dict_get edges (s ! i)). \<exists>j<i. s ! j = d"
  shows "topo_ordered edges s"
  unfolding topo_ordered_iff
proof (intro allI impI subsetI)
  fix a n b d assume s: "s = a @ n # b" and d: "d \<in> set (dict_get edges n)"
  then have "length a < length s" and "s ! length a = n" by simp_all
  with assms d obtain j where "j < length a" and "s ! j = d" by blast
  with s show "d \<in> set a" by (auto simp: nth_append)
qed

text \<open>
  A prepared build that \<open>prepare_build\<close> returns has a topologically ordered node list
  that holds its out-of-date entries: the two conditions \<open>get_to_build\<close> is analysed
  under.
\<close>

lemma prepare_build_well_formed:
  assumes it: "set_iter_ok it" and pb: "prepare_build it w rt ex s targets = Some (Inr pb)"
  shows "topo_ordered (pb_edges pb) (pb_ordered_nodes pb) \<and>
         set (pb_out_of_date pb) \<subseteq> set (pb_ordered_nodes pb)"
proof -
  from pb obtain target_nodes where tn: "args_to_nodes ex targets = Inr target_nodes"
    by (auto simp: prepare_build_def split: sum.splits)
  let ?T = "traverse_node_graph it w target_nodes"
  obtain all_nodes edges where T: "?T = (all_nodes, edges)" by (cases ?T)
  note spec = traverse_node_graph_spec [OF it, of w target_nodes]
  from pb tn T obtain ordered_nodes where sorted: "sort_dag it (node_str w) all_nodes edges = Inr ordered_nodes"
    by (auto simp: prepare_build_def split: sum.splits)
  from pb tn T sorted obtain all_dependencies metadata outdated changed where
    fo: "find_outdated it w rt s metadata all_dependencies all_nodes ([], []) = Inr (outdated, changed)"
    and pb_eq: "pb_ordered_nodes pb = ordered_nodes" "pb_edges pb = edges" "pb_out_of_date pb = outdated"
    by (auto simp: prepare_build_def split: sum.splits option.splits prod.splits)
  have f: "Field (dep_rel edges) \<subseteq> set all_nodes"
    using Field_reachable_graph [of w target_nodes] dep_rel_traverse [OF it, of w target_nodes]
      spec(1) T by simp
  have k: "distinct (map fst edges)" using spec(2) T by simp
  from sort_dag_Inr_acyclic [OF it k f sorted] have a: "acyclic (dep_rel edges)" .
  from sort_dag_acyclic [OF it k f a, of "node_str w"] sorted
  have all: "set ordered_nodes = set all_nodes"
    and idx: "\<forall>i<length ordered_nodes. \<forall>d\<in>set (dict_get edges (ordered_nodes ! i)).
               \<exists>j<i. ordered_nodes ! j = d"
    by auto
  from find_outdated_subset [OF fo] all have "set outdated \<subseteq> set ordered_nodes" by simp
  with topo_ordered_of_index [OF idx] pb_eq show ?thesis by simp
qed

end
